theory Spec2Isabelle
  imports Main
begin

section \<open>Python string primitives used by the formatter\<close>

text \<open>
  A Python \<open>str\<close> is modelled as a \<open>string\<close>, one \<open>char\<close> per code point (the model
  covers texts whose code points are below 256).  The three characters that Isabelle's
  string literals cannot hold are named here.
\<close>

abbreviation BSL :: char where "BSL \<equiv> CHR 0x5C"
abbreviation DQ :: char where "DQ \<equiv> CHR 0x22"
abbreviation TAB :: char where "TAB \<equiv> CHR 0x09"

text \<open>The characters that \<open>str.strip\<close>, \<open>str.split\<close> and \<open>str.isspace\<close> treat as whitespace.\<close>

definition is_space :: "char \<Rightarrow> bool" where
  "is_space c =
     (c = CHR 0x09 \<or> c = CHR 0x0A \<or> c = CHR 0x0B \<or> c = CHR 0x0C \<or> c = CHR 0x0D \<or>
      c = CHR 0x1C \<or> c = CHR 0x1D \<or> c = CHR 0x1E \<or> c = CHR 0x1F \<or> c = CHR 0x20 \<or>
      c = CHR 0x85 \<or> c = CHR 0xA0)"

definition lstrip :: "string \<Rightarrow> string" where
  "lstrip s = dropWhile is_space s"

definition rstrip :: "string \<Rightarrow> string" where
  "rstrip s = rev (dropWhile is_space (rev s))"

definition strip :: "string \<Rightarrow> string" where
  "strip s = rstrip (lstrip s)"

definition startswith :: "string \<Rightarrow> string \<Rightarrow> bool" where
  "startswith s p = (take (length p) s = p)"

definition endswith :: "string \<Rightarrow> string \<Rightarrow> bool" where
  "endswith s p = (length p \<le> length s \<and> drop (length s - length p) s = p)"

text \<open>\<open>str(n)\<close> for a non-negative integer, as the f-strings of the messages use it.\<close>

fun str_nat :: "nat \<Rightarrow> string" where
  "str_nat n =
     (if n < 10 then [char_of (48 + n)] else str_nat (n div 10) @ [char_of (48 + n mod 10)])"

declare str_nat.simps [simp del]

section \<open>SyntaxValidator\<close>

text \<open>
  The two dataclasses.  Both have a field \<open>line_number\<close> in the source; the frame's is
  called \<open>frame_line_number\<close> here, since record fields share one name space.
\<close>

record SyntaxError =
  line_number :: nat
  message :: string
  error_type :: string

record StackFrame =
  char :: char
  frame_line_number :: nat
  position :: nat

text \<open>The validator object: its two mutable fields, passed explicitly.\<close>

record validator =
  stack :: "StackFrame list"
  errors :: "SyntaxError list"

definition push :: "char \<Rightarrow> nat \<Rightarrow> nat \<Rightarrow> validator \<Rightarrow> validator" where
  "push c line_num pos v =
     v\<lparr>stack := stack v @ [\<lparr>char = c, frame_line_number = line_num, position = pos\<rparr>]\<rparr>"

text \<open>\<open>_pop\<close> returns the optional error and the validator with its stack updated.\<close>

definition pop :: "char \<Rightarrow> nat \<Rightarrow> nat \<Rightarrow> validator \<Rightarrow> SyntaxError option \<times> validator" where
  "pop c line_num pos v =
     (if stack v = [] then
        (Some \<lparr>line_number = line_num,
               message = ''Unexpected closing '' @ [c] @ '' with no matching opening'',
               error_type = (if c = CHR ''}'' then ''brace'' else ''quote'')\<rparr>, v)
      else
        let frame = last (stack v);
            v1 = v\<lparr>stack := butlast (stack v)\<rparr>
        in if c = CHR ''}'' \<and> char frame \<noteq> CHR ''{'' then
             (Some \<lparr>line_number = line_num,
                    message = ''Unexpected closing brace, expected closing quote from line ''
                              @ str_nat (frame_line_number frame),
                    error_type = ''brace''\<rparr>,
              v1\<lparr>stack := stack v1 @ [frame]\<rparr>)
           else if c = DQ \<and> char frame \<noteq> DQ then
             (Some \<lparr>line_number = line_num,
                    message = ''Unexpected closing quote, expected closing brace from line ''
                              @ str_nat (frame_line_number frame),
                    error_type = ''quote''\<rparr>,
              v1\<lparr>stack := stack v1 @ [frame]\<rparr>)
           else (None, v1))"

text \<open>\<open>if error: self.errors.append(error)\<close>\<close>

definition record_error :: "SyntaxError option \<times> validator \<Rightarrow> validator" where
  "record_error r =
     (case r of (None, v) \<Rightarrow> v | (Some e, v) \<Rightarrow> v\<lparr>errors := errors v @ [e]\<rparr>)"

text \<open>The \<open>while i < len(line)\<close> loop of \<open>_process_line\<close>, with its local \<open>in_string\<close>.\<close>

function process_chars :: "string \<Rightarrow> nat \<Rightarrow> nat \<Rightarrow> bool \<Rightarrow> validator \<Rightarrow> validator" where
  "process_chars line line_num i in_string v =
     (if i < length line then
        let c = line ! i in
        if c = BSL \<and> i + 1 < length line then
          process_chars line line_num (i + 2) in_string v
        else if c = DQ then
          (if in_string then
             process_chars line line_num (i + 1) False (record_error (pop DQ line_num i v))
           else
             process_chars line line_num (i + 1) True (push DQ line_num i v))
        else if \<not> in_string then
          (if c = CHR ''{'' then
             process_chars line line_num (i + 1) in_string (push (CHR ''{'') line_num i v)
           else if c = CHR ''}'' then
             process_chars line line_num (i + 1) in_string
               (record_error (pop (CHR ''}'') line_num i v))
           else process_chars line line_num (i + 1) in_string v)
        else process_chars line line_num (i + 1) in_string v
      else v)"
  by pat_completeness auto
termination
  by (relation "measure (\<lambda>(line, line_num, i, in_string, v). length line - i)") auto

declare process_chars.simps [simp del]

definition process_line :: "string \<Rightarrow> nat \<Rightarrow> validator \<Rightarrow> validator" where
  "process_line line line_num v =
     (if startswith (strip line) ''#'' then v
      else process_chars line line_num 0 False v)"

text \<open>
  \<open>_handle_line_continuations\<close>: the inner loop joins the current line with the following
  physical lines, the outer loop emits one numbered line per group.
\<close>

function join_continuations :: "string list \<Rightarrow> nat \<Rightarrow> string \<Rightarrow> nat \<times> string" where
  "join_continuations lines i line =
     (if i < length lines - 1 \<and> endswith (rstrip line) [BSL] then
        join_continuations lines (i + 1) (butlast (rstrip line) @ lines ! (i + 1))
      else (i, line))"
  by pat_completeness auto
termination
  by (relation "measure (\<lambda>(lines, i, line). length lines - i)") auto

declare join_continuations.simps [simp del]

lemma join_continuations_ge: "i \<le> fst (join_continuations lines i line)"
proof (induction lines i line rule: join_continuations.induct)
  case (1 lines i line)
  show ?case
  proof (cases "i < length lines - 1 \<and> endswith (rstrip line) [BSL]")
    case True
    with 1 have "i + 1 \<le> fst (join_continuations lines i line)"
      by (subst join_continuations.simps) simp
    then show ?thesis by simp
  next
    case False
    then show ?thesis by (subst join_continuations.simps) auto
  qed
qed

function handle_loop ::
  "string list \<Rightarrow> nat \<Rightarrow> (nat \<times> string) list \<Rightarrow> (nat \<times> string) list" where
  "handle_loop lines i result =
     (if i < length lines then
        let (j, line) = join_continuations lines i (lines ! i)
        in handle_loop lines (j + 1) (result @ [(i + 1, line)])
      else result)"
  by pat_completeness auto
termination
proof (relation "measure (\<lambda>(lines, i, result). length lines - i)", goal_cases)
  case 1
  show ?case by simp
next
  case (2 lines i result x j line)
  from 2 have "fst (join_continuations lines i (lines ! i)) = j"
    by (metis fst_conv)
  then have "i \<le> j"
    using join_continuations_ge [of i lines "lines ! i"] by simp
  with 2 show ?case by simp
qed

declare handle_loop.simps [simp del]

definition handle_line_continuations :: "string list \<Rightarrow> (nat \<times> string) list" where
  "handle_line_continuations lines = handle_loop lines 0 []"

definition unmatched_error :: "StackFrame \<Rightarrow> SyntaxError" where
  "unmatched_error frame =
     (if char frame = CHR ''{'' then
        \<lparr>line_number = frame_line_number frame, message = ''Unmatched opening brace'',
         error_type = ''brace''\<rparr>
      else
        \<lparr>line_number = frame_line_number frame, message = ''Unmatched opening quote'',
         error_type = ''quote''\<rparr>)"

definition check_remaining_stack :: "validator \<Rightarrow> validator" where
  "check_remaining_stack v = v\<lparr>errors := errors v @ map unmatched_error (stack v)\<rparr>"

definition process_lines :: "(nat \<times> string) list \<Rightarrow> validator \<Rightarrow> validator" where
  "process_lines processed v = fold (\<lambda>(line_num, line) v. process_line line line_num v) processed v"

definition validate :: "string list \<Rightarrow> SyntaxError list" where
  "validate lines =
     errors (check_remaining_stack
       (process_lines (handle_line_continuations lines) \<lparr>stack = [], errors = []\<rparr>))"

section \<open>IndentationEngine\<close>

definition INDENT_SIZE :: int where
  "INDENT_SIZE = 2"

definition BLOCK_KEYWORDS :: "string list" where
  "BLOCK_KEYWORDS = [''if'', ''else'', ''foreach'', ''while'', ''switch'', ''proc'', ''namespace'']"

text \<open>\<open>s.split()\<close>: the maximal runs of non-whitespace characters.\<close>

function split_ws :: "string \<Rightarrow> string list" where
  "split_ws s =
     (let s1 = dropWhile is_space s in
      if s1 = [] then []
      else takeWhile (\<lambda>c. \<not> is_space c) s1 # split_ws (dropWhile (\<lambda>c. \<not> is_space c) s1))"
  by pat_completeness auto
termination
proof (relation "measure length", goal_cases)
  case 1
  show ?case by simp
next
  case (2 s s1)
  then obtain c cs where s1: "dropWhile is_space s = c # cs"
    by (cases "dropWhile is_space s") auto
  then have "\<not> is_space c"
    by (metis hd_dropWhile list.sel(1) list.distinct(1))
  then have "length (dropWhile (\<lambda>c. \<not> is_space c) (c # cs)) \<le> length cs"
    by (simp add: length_dropWhile_le)
  moreover have "length (c # cs) \<le> length s"
    using s1 length_dropWhile_le [of is_space s] by simp
  ultimately show ?case using 2 s1 by simp
qed

declare split_ws.simps [simp del]

text \<open>
  \<open>s.split(None, 1)\<close>: the first token and, when something other than whitespace follows
  it, the rest of the string from the next non-whitespace character on.
\<close>

definition split_ws1 :: "string \<Rightarrow> string list" where
  "split_ws1 s =
     (let s1 = dropWhile is_space s in
      if s1 = [] then []
      else
        let tok = takeWhile (\<lambda>c. \<not> is_space c) s1;
            rest = dropWhile is_space (dropWhile (\<lambda>c. \<not> is_space c) s1)
        in if rest = [] then [tok] else [tok, rest])"

definition is_continuation_line :: "string \<Rightarrow> bool" where
  "is_continuation_line line =
     (if startswith line ''#'' then False
      else if startswith line ''{'' \<or> startswith line ''}'' then False
      else
        let first_word = (if split_ws line \<noteq> [] then hd (split_ws line) else [])
        in if first_word \<in> set BLOCK_KEYWORDS then False
           else if first_word \<in>
                     set [''set'', ''puts'', ''return'', ''source'', ''package'', ''namespace'']
           then False
           else False)"

definition calculate_indent_level :: "bool \<Rightarrow> string \<Rightarrow> int \<Rightarrow> bool \<Rightarrow> int" where
  "calculate_indent_level strict_mode line current_level in_string =
     (if in_string then current_level
      else if startswith line ''}'' then max 0 (current_level - 1)
      else if strict_mode \<and> is_continuation_line line then current_level + 1
      else current_level)"

text \<open>
  The brace-counting loop of \<open>_update_level_after_line\<close>; it returns
  \<open>(open_braces, close_braces)\<close>.
\<close>

function count_braces :: "string \<Rightarrow> nat \<Rightarrow> int \<Rightarrow> int \<Rightarrow> bool \<Rightarrow> int \<times> int" where
  "count_braces line i open_braces close_braces in_line_string =
     (if i < length line then
        let c = line ! i in
        if c = BSL \<and> i + 1 < length line then
          count_braces line (i + 2) open_braces close_braces in_line_string
        else
          let in_line_string = (if c = DQ then \<not> in_line_string else in_line_string) in
          if \<not> in_line_string then
            (if c = CHR ''{'' then
               count_braces line (i + 1) (open_braces + 1) close_braces in_line_string
             else if c = CHR ''}'' then
               count_braces line (i + 1) open_braces (close_braces + 1) in_line_string
             else count_braces line (i + 1) open_braces close_braces in_line_string)
          else count_braces line (i + 1) open_braces close_braces in_line_string
      else (open_braces, close_braces))"
  by pat_completeness auto
termination
  by (relation "measure (\<lambda>(line, i, ob, cb, s). length line - i)") auto

declare count_braces.simps [simp del]

definition update_level_after_line :: "string \<Rightarrow> int \<Rightarrow> bool \<Rightarrow> int" where
  "update_level_after_line line line_level in_string =
     (if in_string then line_level
      else
        let (open_braces, close_braces) = count_braces line 0 0 0 False;
            net_change = open_braces - close_braces
        in if startswith line ''}'' then line_level + net_change + 1
           else line_level + net_change)"

function count_quotes :: "string \<Rightarrow> nat \<Rightarrow> nat \<Rightarrow> nat" where
  "count_quotes line i quote_count =
     (if i < length line then
        let c = line ! i in
        if c = BSL \<and> i + 1 < length line then count_quotes line (i + 2) quote_count
        else if c = DQ then count_quotes line (i + 1) (quote_count + 1)
        else count_quotes line (i + 1) quote_count
      else quote_count)"
  by pat_completeness auto
termination
  by (relation "measure (\<lambda>(line, i, n). length line - i)") auto

declare count_quotes.simps [simp del]

definition update_string_state :: "string \<Rightarrow> bool \<Rightarrow> bool" where
  "update_string_state line in_string = ((\<lambda>b. \<not> b) ^^ count_quotes line 0 0) in_string"

text \<open>
  The \<open>for\<close> loop of \<open>apply_indentation\<close>, carrying \<open>current_level\<close> and \<open>in_string\<close>.
  \<open>' ' * n\<close> is the empty string for a negative \<open>n\<close>.
\<close>

fun indent_loop :: "bool \<Rightarrow> string list \<Rightarrow> int \<Rightarrow> bool \<Rightarrow> string list" where
  "indent_loop strict_mode [] current_level in_string = []"
| "indent_loop strict_mode (line # rest) current_level in_string =
     (let stripped = strip line in
      if stripped = [] then line # indent_loop strict_mode rest current_level in_string
      else if startswith stripped ''#'' then
        line # indent_loop strict_mode rest current_level in_string
      else
        let line_level = calculate_indent_level strict_mode stripped current_level in_string;
            indented_line = replicate (nat (line_level * INDENT_SIZE)) (CHR '' '') @ stripped
        in indented_line #
           indent_loop strict_mode rest
             (update_level_after_line stripped line_level in_string)
             (update_string_state stripped in_string))"

definition apply_indentation :: "bool \<Rightarrow> string list \<Rightarrow> string list" where
  "apply_indentation strict_mode lines =
     (if lines = [] then lines else indent_loop strict_mode lines 0 False)"

text \<open>
  The loop variables \<open>(current_level, in_string)\<close> of \<open>apply_indentation\<close> after the
  lines of a prefix have been processed; used to state what the pass does at a given line.
\<close>

fun indent_state :: "bool \<Rightarrow> string list \<Rightarrow> int \<Rightarrow> bool \<Rightarrow> int \<times> bool" where
  "indent_state strict_mode [] current_level in_string = (current_level, in_string)"
| "indent_state strict_mode (line # rest) current_level in_string =
     (let stripped = strip line in
      if stripped = [] \<or> startswith stripped ''#'' then
        indent_state strict_mode rest current_level in_string
      else
        let line_level = calculate_indent_level strict_mode stripped current_level in_string
        in indent_state strict_mode rest
             (update_level_after_line stripped line_level in_string)
             (update_string_state stripped in_string))"

section \<open>ListExpansionEngine\<close>

definition LIST_LENGTH_THRESHOLD :: nat where
  "LIST_LENGTH_THRESHOLD = 80"

text \<open>\<open>s.find(c)\<close> and \<open>s.rfind(c)\<close> for a single character: an index, or \<open>-1\<close>.\<close>

definition find_char :: "string \<Rightarrow> char \<Rightarrow> int" where
  "find_char s c =
     (if c \<in> set s then int (length (takeWhile (\<lambda>x. x \<noteq> c) s)) else - 1)"

definition rfind_char :: "string \<Rightarrow> char \<Rightarrow> int" where
  "rfind_char s c =
     (if c \<in> set s then int (length s) - 1 - int (length (takeWhile (\<lambda>x. x \<noteq> c) (rev s)))
      else - 1)"

text \<open>\<open>s[a:b]\<close> with Python's treatment of negative and too large bounds.\<close>

definition clamp_index :: "string \<Rightarrow> int \<Rightarrow> nat" where
  "clamp_index s a =
     (let n = int (length s) in nat (if a < 0 then max (a + n) 0 else min a n))"

definition slice :: "string \<Rightarrow> int \<Rightarrow> int \<Rightarrow> string" where
  "slice s a b = take (clamp_index s b - clamp_index s a) (drop (clamp_index s a) s)"

definition should_expand_list :: "string \<Rightarrow> bool" where
  "should_expand_list line =
     (if length line < LIST_LENGTH_THRESHOLD then False
      else
        let stripped = strip line in
        if startswith stripped ''#'' then False
        else if CHR ''{'' \<notin> set stripped \<or> CHR ''}'' \<notin> set stripped then False
        else
          let open_brace_idx = find_char stripped (CHR ''{'');
              close_brace_idx = rfind_char stripped (CHR ''}'')
          in if open_brace_idx = - 1 \<or> close_brace_idx = - 1 then False
             else if close_brace_idx \<le> open_brace_idx then False
             else
               let list_content = strip (slice stripped (open_brace_idx + 1) close_brace_idx)
               in if list_content = [] then False
                  else if CHR '' '' \<in> set list_content \<or> TAB \<in> set list_content then True
                  else False)"

text \<open>The inner loop of \<open>_parse_list_items\<close> that skips a run of blanks and tabs.\<close>

function skip_blanks :: "string \<Rightarrow> nat \<Rightarrow> nat" where
  "skip_blanks s i =
     (if i < length s \<and> (s ! i = CHR '' '' \<or> s ! i = TAB) then skip_blanks s (i + 1) else i)"
  by pat_completeness auto
termination
  by (relation "measure (\<lambda>(s, i). length s - i)") auto

declare skip_blanks.simps [simp del]

lemma skip_blanks_ge: "i \<le> skip_blanks s i"
proof (induction s i rule: skip_blanks.induct)
  case (1 s i)
  show ?case
  proof (cases "i < length s \<and> (s ! i = CHR '' '' \<or> s ! i = TAB)")
    case True
    with 1 have "i + 1 \<le> skip_blanks s i"
      by (subst skip_blanks.simps) simp
    then show ?thesis by simp
  next
    case False
    then show ?thesis by (subst skip_blanks.simps) auto
  qed
qed

lemma skip_blanks_gt:
  "i < length s \<Longrightarrow> s ! i = CHR '' '' \<or> s ! i = TAB \<Longrightarrow> i < skip_blanks s i"
  using skip_blanks_ge [of "i + 1" s] by (subst skip_blanks.simps) auto

text \<open>
  The main loop of \<open>_parse_list_items\<close>, with its variables \<open>i\<close>, \<open>current_item\<close>,
  \<open>brace_depth\<close>, \<open>in_string\<close> and \<open>items\<close>.
\<close>

function parse_loop ::
  "string \<Rightarrow> nat \<Rightarrow> string \<Rightarrow> int \<Rightarrow> bool \<Rightarrow> string list \<Rightarrow> string list" where
  "parse_loop s i current_item brace_depth in_string items =
     (if i < length s then
        let c = s ! i in
        if c = BSL \<and> i + 1 < length s then
          parse_loop s (i + 2) (current_item @ [c, s ! (i + 1)]) brace_depth in_string items
        else if c = DQ then
          parse_loop s (i + 1) (current_item @ [c]) brace_depth (\<not> in_string) items
        else if \<not> in_string \<and> c = CHR ''{'' then
          parse_loop s (i + 1) (current_item @ [c]) (brace_depth + 1) in_string items
        else if \<not> in_string \<and> c = CHR ''}'' then
          parse_loop s (i + 1) (current_item @ [c]) (brace_depth - 1) in_string items
        else if \<not> in_string \<and> brace_depth = 0 \<and> (c = CHR '' '' \<or> c = TAB) then
          parse_loop s (skip_blanks s i) [] brace_depth in_string
            (if current_item \<noteq> [] then items @ [current_item] else items)
        else
          parse_loop s (i + 1) (current_item @ [c]) brace_depth in_string items
      else (if current_item \<noteq> [] then items @ [current_item] else items))"
  by pat_completeness auto
termination
proof (relation "measure (\<lambda>(s, i, cur, d, q, items). length s - i)", goal_cases)
  case (6 s i cur d q items c)
  then show ?case using skip_blanks_gt [of i s] by auto
qed auto

declare parse_loop.simps [simp del]

definition parse_list_items :: "string \<Rightarrow> string list" where
  "parse_list_items list_content = parse_loop list_content 0 [] 0 False []"

definition expand_list :: "string \<Rightarrow> string list" where
  "expand_list line =
     (let indent = take (length line - length (lstrip line)) line;
          stripped = strip line;
          open_brace_idx = find_char stripped (CHR ''{'');
          close_brace_idx = rfind_char stripped (CHR ''}'');
          before_list = slice stripped 0 (open_brace_idx + 1);
          list_content = strip (slice stripped (open_brace_idx + 1) close_brace_idx);
          after_list = slice stripped (close_brace_idx + 1) (int (length stripped));
          items = parse_list_items list_content;
          item_indent = indent @ replicate (nat INDENT_SIZE) (CHR '' '')
      in [indent @ before_list] @ map (\<lambda>item. item_indent @ item) items
         @ [indent @ ''}'' @ after_list])"

definition expand_long_lists :: "string list \<Rightarrow> string list" where
  "expand_long_lists lines =
     (if lines = [] then lines
      else concat (map (\<lambda>line. if should_expand_list line then expand_list line else [line])
                       lines))"

section \<open>AlignmentEngine\<close>

text \<open>The exceptions that the engine's own code can raise.\<close>

datatype exc = ValueError | IndexError

definition is_set_command :: "string \<Rightarrow> bool" where
  "is_set_command line =
     (if \<not> startswith line ''set '' then False
      else let parts = split_ws1 line in length parts \<ge> 1 \<and> hd parts = ''set'')"

text \<open>The dictionary that \<open>_parse_set_command\<close> returns has exactly these three keys.\<close>

record set_command =
  indent :: string
  variable :: string
  val :: string

definition parse_set_command :: "string \<Rightarrow> set_command option" where
  "parse_set_command line =
     (let ind = take (length line - length (lstrip line)) line;
          stripped = strip line
      in if \<not> startswith stripped ''set '' then None
         else
           let remainder = drop 4 stripped;
               parts = split_ws1 remainder
           in if length parts < 2 then None
              else Some \<lparr>indent = ind, variable = parts ! 0, val = parts ! 1\<rparr>)"

text \<open>
  The \<open>for\<close> loop of \<open>_find_set_blocks\<close> over \<open>enumerate(lines)\<close>, with \<open>blocks\<close>,
  \<open>current_block\<close> and \<open>current_indent\<close>; the last equation is the flush after the loop.
\<close>

definition flush_block :: "nat list list \<Rightarrow> nat list \<Rightarrow> nat list list" where
  "flush_block blocks current_block =
     (if length current_block > 1 then blocks @ [current_block] else blocks)"

fun find_loop ::
  "string list \<Rightarrow> nat \<Rightarrow> nat list list \<Rightarrow> nat list \<Rightarrow> nat option \<Rightarrow> nat list list" where
  "find_loop [] i blocks current_block current_indent = flush_block blocks current_block"
| "find_loop (line # rest) i blocks current_block current_indent =
     (let stripped = strip line in
      if stripped = [] then find_loop rest (i + 1) blocks current_block current_indent
      else if startswith stripped ''#'' then
        find_loop rest (i + 1) (flush_block blocks current_block) [] None
      else if is_set_command stripped then
        let ind = length line - length (lstrip line) in
        if current_indent = None \<or> current_indent = Some ind then
          find_loop rest (i + 1) blocks (current_block @ [i]) (Some ind)
        else
          find_loop rest (i + 1) (flush_block blocks current_block) [i] (Some ind)
      else find_loop rest (i + 1) (flush_block blocks current_block) [] None)"

definition find_set_blocks :: "string list \<Rightarrow> nat list list" where
  "find_set_blocks lines = find_loop lines 0 [] [] None"

text \<open>
  \<open>_align_block\<close>.  \<open>max\<close> of an empty sequence raises \<open>ValueError\<close>; reading a line at
  an index outside the list raises \<open>IndexError\<close>.
\<close>

definition max_var_length :: "set_command list \<Rightarrow> nat" where
  "max_var_length cmds = fold (\<lambda>cmd m. max (length (variable cmd)) m) cmds 0"

definition align_block :: "string list \<Rightarrow> nat list \<Rightarrow> exc + string list" where
  "align_block lines block_indices =
     (if \<exists>i \<in> set block_indices. length lines \<le> i then Inl IndexError
      else
        let set_lines = map (\<lambda>i. lines ! i) block_indices;
            parsed_commands = List.map_filter parse_set_command set_lines
        in if parsed_commands = [] then Inl ValueError
           else
             let m = max_var_length parsed_commands
             in Inr (map (\<lambda>cmd. indent cmd @ ''set '' @ variable cmd
                                 @ replicate (m - length (variable cmd) + 1) (CHR '' '')
                                 @ val cmd)
                         parsed_commands))"

text \<open>
  \<open>for i, line_idx in enumerate(block_indices): result[line_idx] = aligned_block[i]\<close>
\<close>

fun replace_lines :: "string list \<Rightarrow> nat list \<Rightarrow> nat \<Rightarrow> string list \<Rightarrow> exc + string list" where
  "replace_lines result [] i aligned_block = Inr result"
| "replace_lines result (line_idx # rest) i aligned_block =
     (if length aligned_block \<le> i then Inl IndexError
      else if length result \<le> line_idx then Inl IndexError
      else replace_lines (result[line_idx := aligned_block ! i]) rest (i + 1) aligned_block)"

fun align_blocks :: "string list \<Rightarrow> nat list list \<Rightarrow> exc + string list" where
  "align_blocks result [] = Inr result"
| "align_blocks result (block_indices # rest) =
     (case align_block result block_indices of
        Inl e \<Rightarrow> Inl e
      | Inr aligned_block \<Rightarrow>
          (case replace_lines result block_indices 0 aligned_block of
             Inl e \<Rightarrow> Inl e
           | Inr result' \<Rightarrow> align_blocks result' rest))"

definition align_set_commands :: "string list \<Rightarrow> exc + string list" where
  "align_set_commands lines =
     (if lines = [] then Inr lines
      else
        let set_blocks = find_set_blocks lines in
        if set_blocks = [] then Inr lines
        else align_blocks lines set_blocks)"

definition single_space_line :: "string \<Rightarrow> string" where
  "single_space_line line =
     (let stripped = strip line in
      if is_set_command stripped then
        (case parse_set_command line of
           Some parsed \<Rightarrow> indent parsed @ ''set '' @ variable parsed @ '' '' @ val parsed
         | None \<Rightarrow> line)
      else line)"

definition apply_single_space :: "string list \<Rightarrow> string list" where
  "apply_single_space lines = (if lines = [] then lines else map single_space_line lines)"

section \<open>TCLFormatter\<close>

record formatter =
  align_set :: bool
  expand_lists :: bool
  strict_indent :: bool

definition format_lines :: "formatter \<Rightarrow> string list \<Rightarrow> exc + string list" where
  "format_lines f lines =
     (if lines = [] then Inr lines
      else
        let formatted = apply_indentation (strict_indent f) lines;
            formatted = (if expand_lists f then expand_long_lists formatted else formatted)
        in if align_set f then align_set_commands formatted
           else Inr (apply_single_space formatted))"

text \<open>
  The result dataclass; its fields \<open>errors\<close> and \<open>message\<close> are \<open>result_errors\<close> and
  \<open>result_message\<close> here.
\<close>

record FormattingResult =
  success :: bool
  output_path :: "string option"
  error_path :: "string option"
  result_errors :: "SyntaxError list option"
  result_message :: string

text \<open>
  \<open>format_file\<close> reads and writes files.  What the file system does is a parameter of the
  model: the outcome of \<open>_read_file\<close>, the two paths that \<open>pathlib\<close> computes, the
  exception (if any) that writing the error log or the output raises, and the interpreter's
  wording of \<open>str(e)\<close> for the engine's own exceptions.  An exception is either an
  \<open>OSError\<close> (\<open>IOError\<close> and \<open>PermissionError\<close> are caught by the first \<open>except\<close>
  clause) or any other exception; both carry \<open>str(e)\<close>.  What \<open>format_file\<close> writes is
  returned beside its result.
\<close>

datatype raised = OSError string | OtherException string

datatype written = ErrorLog string "string list" | Output string "string list"

record file_system =
  source_lines :: "raised + string list"
  error_log_path :: string
  error_log_raises :: "raised option"
  formatted_path :: string
  output_raises :: "raised option"
  exc_text :: "exc \<Rightarrow> string"

definition failure_result :: "raised \<Rightarrow> FormattingResult" where
  "failure_result e =
     (case e of
        OSError m \<Rightarrow>
          \<lparr>success = False, output_path = None, error_path = None, result_errors = None,
           result_message = ''File I/O error: '' @ m\<rparr>
      | OtherException m \<Rightarrow>
          \<lparr>success = False, output_path = None, error_path = None, result_errors = None,
           result_message = ''Unexpected error: '' @ m\<rparr>)"

definition error_log_lines :: "SyntaxError list \<Rightarrow> string list" where
  "error_log_lines errs =
     map (\<lambda>e. ''Line '' @ str_nat (line_number e) @ '': '' @ message e) errs"

definition format_file :: "formatter \<Rightarrow> file_system \<Rightarrow> FormattingResult \<times> written list" where
  "format_file f fs =
     (case source_lines fs of
        Inl e \<Rightarrow> (failure_result e, [])
      | Inr lines \<Rightarrow>
          let errs = validate lines in
          if errs \<noteq> [] then
            (case error_log_raises fs of
               Some e \<Rightarrow> (failure_result e, [])
             | None \<Rightarrow>
                 (\<lparr>success = False, output_path = None,
                   error_path = Some (error_log_path fs), result_errors = Some errs,
                   result_message = ''Syntax validation failed with '' @ str_nat (length errs)
                     @ '' error(s). See '' @ error_log_path fs\<rparr>,
                  [ErrorLog (error_log_path fs) (error_log_lines errs)]))
          else
            (case format_lines f lines of
               Inl x \<Rightarrow> (failure_result (OtherException (exc_text fs x)), [])
             | Inr formatted_lines \<Rightarrow>
                 (case output_raises fs of
                    Some e \<Rightarrow> (failure_result e, [])
                  | None \<Rightarrow>
                      (\<lparr>success = True, output_path = Some (formatted_path fs),
                        error_path = None, result_errors = None,
                        result_message = ''Successfully formatted to '' @ formatted_path fs\<rparr>,
                       [Output (formatted_path fs) formatted_lines]))))"

section \<open>Definitions used to state the properties\<close>

text \<open>
  A string ends in an unescaped backslash when the run of backslashes at its end has odd
  length: in an even run every backslash is one half of an escaped pair.
\<close>

definition ends_in_unescaped_backslash :: "string \<Rightarrow> bool" where
  "ends_in_unescaped_backslash s = odd (length (takeWhile (\<lambda>c. c = BSL) (rev s)))"

text \<open>
  Continuation folding told line by line: \<open>fold_from n cur k rest\<close> is the list of folded
  lines when the line being assembled has number \<open>n\<close> and text \<open>cur\<close>, and the physical
  lines still to come are \<open>rest\<close>, the first of them with number \<open>k\<close>.  The line being
  assembled is joined with the next physical line exactly when there is one and the
  assembled text, trailing whitespace removed, ends in a backslash.
\<close>

fun fold_from :: "nat \<Rightarrow> string \<Rightarrow> nat \<Rightarrow> string list \<Rightarrow> (nat \<times> string) list" where
  "fold_from n cur k [] = [(n, cur)]"
| "fold_from n cur k (next_line # rest) =
     (if endswith (rstrip cur) [BSL]
      then fold_from n (butlast (rstrip cur) @ next_line) (k + 1) rest
      else (n, cur) # fold_from k next_line (k + 1) rest)"

definition folded_lines :: "string list \<Rightarrow> (nat \<times> string) list" where
  "folded_lines lines = (case lines of [] \<Rightarrow> [] | first # rest \<Rightarrow> fold_from 1 first 2 rest)"

text \<open>The characters of a string that are not whitespace, in their order.\<close>

abbreviation nonblank :: "string \<Rightarrow> string" where
  "nonblank s \<equiv> filter (\<lambda>c. \<not> is_space c) s"

text \<open>
  A set command written out again with \<open>k + 1\<close> blanks between the name and the value, as
  \<open>_align_block\<close> builds its lines.
\<close>

definition aligned_line :: "set_command \<Rightarrow> nat \<Rightarrow> string" where
  "aligned_line cmd k =
     indent cmd @ ''set '' @ variable cmd @ replicate (Suc k) (CHR '' '') @ val cmd"

text \<open>Every index of a block is the index of a line recognised as a set command.\<close>

definition set_lines_at :: "string list \<Rightarrow> nat list \<Rightarrow> bool" where
  "set_lines_at lines b = (\<forall>j \<in> set b. j < length lines \<and> is_set_command (strip (lines ! j)))"

text \<open>
  The working copy \<open>res\<close> of \<open>align_set_commands\<close> against its input: as many lines, and
  each line either as it was or, when its index is one of \<open>B\<close>, the parsed line written
  out again.
\<close>

definition aligned_text :: "string list \<Rightarrow> nat set \<Rightarrow> string list \<Rightarrow> bool" where
  "aligned_text lines B res =
     (length res = length lines \<and>
      (\<forall>j < length lines.
         res ! j = lines ! j \<or>
         (j \<in> B \<and> (\<exists>p k. parse_set_command (lines ! j) = Some p \<and> res ! j = aligned_line p k))))"

text \<open>
  The braces of a logical line that count: those that are neither escaped nor inside a
  quoted region, each with its position.  A backslash that has a successor escapes it; a
  quote that is not escaped opens or closes a quoted region; \<open>q\<close> tells whether the scan is
  inside one.
\<close>

datatype brace = Open | Close

fun braces_of :: "nat \<Rightarrow> bool \<Rightarrow> string \<Rightarrow> (brace \<times> nat) list" where
  "braces_of i q [] = []"
| "braces_of i q (c # cs) =
     (if c = BSL then (case cs of [] \<Rightarrow> [] | d # ds \<Rightarrow> braces_of (i + 2) q ds)
      else if c = DQ then braces_of (i + 1) (\<not> q) cs
      else if \<not> q \<and> c = CHR ''{'' then (Open, i) # braces_of (i + 1) q cs
      else if \<not> q \<and> c = CHR ''}'' then (Close, i) # braces_of (i + 1) q cs
      else braces_of (i + 1) q cs)"

text \<open>The number of quotes of a line that are not escaped.\<close>

fun quote_count :: "string \<Rightarrow> nat" where
  "quote_count [] = 0"
| "quote_count (c # cs) =
     (if c = BSL then (case cs of [] \<Rightarrow> 0 | d # ds \<Rightarrow> quote_count ds)
      else if c = DQ then Suc (quote_count cs)
      else quote_count cs)"

text \<open>
  The text of the file: its lines, each but the last followed by a newline.  Read as one
  text, a quoted region may run from one line into the next.
\<close>

fun source_text :: "string list \<Rightarrow> string" where
  "source_text [] = []"
| "source_text [l] = l"
| "source_text (l # m # ls) = l @ CHR 0x0A # source_text (m # ls)"

text \<open>
  The logical lines that the validator scans: the folded lines that are not comments.  The
  quotes pair when every such line has an even number of unescaped quotes (a quoted region
  is opened and closed within one logical line), and the brace word of the input lists the
  counting braces of these lines in order, each with its line number and position.
\<close>

definition code_lines :: "string list \<Rightarrow> (nat \<times> string) list" where
  "code_lines lines = filter (\<lambda>(n, l). \<not> startswith (strip l) ''#'') (folded_lines lines)"

definition quotes_pair :: "string list \<Rightarrow> bool" where
  "quotes_pair lines = list_all (\<lambda>(n, l). even (quote_count l)) (code_lines lines)"

definition line_braces :: "nat \<times> string \<Rightarrow> (brace \<times> nat \<times> nat) list" where
  "line_braces nl = (case nl of (n, l) \<Rightarrow> map (\<lambda>(b, p). (b, n, p)) (braces_of 0 False l))"

definition brace_word :: "string list \<Rightarrow> (brace \<times> nat \<times> nat) list" where
  "brace_word lines = concat (map line_braces (code_lines lines))"

text \<open>
  A word of braces in which every opening brace has its closing brace, and every closing
  brace its opening one.
\<close>

inductive balanced :: "(brace \<times> 'a) list \<Rightarrow> bool" where
  empty: "balanced []"
| nest: "balanced w \<Longrightarrow> balanced ((Open, a) # w @ [(Close, b)])"
| juxtapose: "balanced u \<Longrightarrow> balanced v \<Longrightarrow> balanced (u @ v)"

text \<open>The validator run on a brace word alone.\<close>

fun run_braces :: "(brace \<times> nat \<times> nat) list \<Rightarrow> validator \<Rightarrow> validator" where
  "run_braces [] v = v"
| "run_braces ((Open, n, p) # w) v = run_braces w (push (CHR ''{'') n p v)"
| "run_braces ((Close, n, p) # w) v = run_braces w (record_error (pop (CHR ''}'') n p v))"

text \<open>The loop of \<open>_process_line\<close> told on the characters still to be read.\<close>

fun scan_chars :: "nat \<Rightarrow> nat \<Rightarrow> bool \<Rightarrow> string \<Rightarrow> validator \<Rightarrow> validator" where
  "scan_chars n i q [] v = v"
| "scan_chars n i q (c # cs) v =
     (if c = BSL then (case cs of [] \<Rightarrow> v | d # ds \<Rightarrow> scan_chars n (i + 2) q ds v)
      else if c = DQ then
        (if q then scan_chars n (i + 1) False cs (record_error (pop DQ n i v))
         else scan_chars n (i + 1) True cs (push DQ n i v))
      else if \<not> q then
        (if c = CHR ''{'' then scan_chars n (i + 1) q cs (push (CHR ''{'') n i v)
         else if c = CHR ''}'' then scan_chars n (i + 1) q cs (record_error (pop (CHR ''}'') n i v))
         else scan_chars n (i + 1) q cs v)
      else scan_chars n (i + 1) q cs v)"

text \<open>The braces of line \<open>n\<close>, each with the number of its line.\<close>

abbreviation tag :: "nat \<Rightarrow> (brace \<times> nat) list \<Rightarrow> (brace \<times> nat \<times> nat) list" where
  "tag n w \<equiv> map (\<lambda>(b, p). (b, n, p)) w"

text \<open>\<open>' '.join(items)\<close>\<close>

fun join_spaces :: "string list \<Rightarrow> string" where
  "join_spaces [] = []"
| "join_spaces [x] = x"
| "join_spaces (x # y # ys) = x @ CHR '' '' # join_spaces (y # ys)"

text \<open>The loop of \<open>_parse_list_items\<close> told on the characters still to be read.\<close>

definition is_blank :: "char \<Rightarrow> bool" where
  "is_blank c = (c = CHR '' '' \<or> c = TAB)"

function parse_chars ::
  "string \<Rightarrow> string \<Rightarrow> int \<Rightarrow> bool \<Rightarrow> string list \<Rightarrow> string list" where
  "parse_chars [] cur d q items = (if cur \<noteq> [] then items @ [cur] else items)"
| "parse_chars (c # cs) cur d q items =
     (if c = BSL \<and> cs \<noteq> [] then parse_chars (tl cs) (cur @ [c, hd cs]) d q items
      else if c = DQ then parse_chars cs (cur @ [c]) d (\<not> q) items
      else if \<not> q \<and> c = CHR ''{'' then parse_chars cs (cur @ [c]) (d + 1) q items
      else if \<not> q \<and> c = CHR ''}'' then parse_chars cs (cur @ [c]) (d - 1) q items
      else if \<not> q \<and> d = 0 \<and> is_blank c then
        parse_chars (dropWhile is_blank cs) [] d q (if cur \<noteq> [] then items @ [cur] else items)
      else parse_chars cs (cur @ [c]) d q items)"
  by pat_completeness auto
termination
proof (relation "measure (\<lambda>(cs, cur, d, q, items). length cs)", goal_cases)
  case (6 c cs cur d q items)
  show ?case using length_dropWhile_le [of is_blank cs] by simp
qed auto

declare parse_chars.simps(2) [simp del]

text \<open>
  Reading a string as (part of) one item, from brace depth \<open>d\<close> and quote state \<open>q\<close>: the
  state at its end and whether its last character is a backslash that escapes nothing, or
  \<open>None\<close> when a separating blank is met on the way.
\<close>

fun scan_item :: "string \<Rightarrow> int \<Rightarrow> bool \<Rightarrow> (int \<times> bool \<times> bool) option" where
  "scan_item [] d q = Some (d, q, False)"
| "scan_item (c # cs) d q =
     (if c = BSL then (case cs of [] \<Rightarrow> Some (d, q, True) | e # es \<Rightarrow> scan_item es d q)
      else if c = DQ then scan_item cs d (\<not> q)
      else if \<not> q \<and> c = CHR ''{'' then scan_item cs (d + 1) q
      else if \<not> q \<and> c = CHR ''}'' then scan_item cs (d - 1) q
      else if \<not> q \<and> d = 0 \<and> is_blank c then None
      else scan_item cs d q)"

text \<open>
  Items as the tokenizer produces them: none is empty, none holds a separating blank, and
  all but the last end outside braces and quotes with no unfinished escape.
\<close>

fun proper_items :: "string list \<Rightarrow> bool" where
  "proper_items [] = True"
| "proper_items [y] = (y \<noteq> [] \<and> scan_item y 0 False \<noteq> None)"
| "proper_items (x # y # ys) =
     (x \<noteq> [] \<and> scan_item x 0 False = Some (0, False, False) \<and> proper_items (y # ys))"

text \<open>
  The brace depth and quote state after a character that is neither a backslash nor a
  separating blank.
\<close>

definition char_step :: "char \<Rightarrow> int \<Rightarrow> bool \<Rightarrow> int \<times> bool" where
  "char_step c d q =
     (if c = DQ then (d, \<not> q)
      else if \<not> q \<and> c = CHR ''{'' then (d + 1, q)
      else if \<not> q \<and> c = CHR ''}'' then (d - 1, q)
      else (d, q))"

section \<open>The validator's stack discipline\<close>

text \<open>
  C4.  When the closing character does not match the innermost frame (a closing brace met
  outside a string while a quote frame is on top, or a closing quote while a brace frame is
  on top), \<open>_pop\<close> returns one error and leaves the validator as it was before the pop, so
  that handling the character only appends that one error: the scan continues at the next
  character with the stack unchanged.
\<close>

theorem pop_mismatch_restores_stack:
  assumes "i < length line" and "line ! i = c" and "stack v \<noteq> []"
    and "(c = CHR ''}'' \<and> \<not> in_string \<and> char (last (stack v)) \<noteq> CHR ''{'') \<or>
         (c = DQ \<and> in_string \<and> char (last (stack v)) \<noteq> DQ)"
  shows "\<exists>e. pop c line_num i v = (Some e, v) \<and> line_number e = line_num \<and>
             take 18 (message e) = ''Unexpected closing'' \<and>
             stack (record_error (pop c line_num i v)) = stack v \<and>
             errors (record_error (pop c line_num i v)) = errors v @ [e] \<and>
             process_chars line line_num i in_string v =
               process_chars line line_num (i + 1) False (v\<lparr>errors := errors v @ [e]\<rparr>)"
proof -
  from assms(3) have restore: "v\<lparr>stack := butlast (stack v) @ [last (stack v)]\<rparr> = v"
    by simp
  from assms(4) show ?thesis
  proof
    assume h: "c = CHR ''}'' \<and> \<not> in_string \<and> char (last (stack v)) \<noteq> CHR ''{''"
    let ?e = "\<lparr>line_number = line_num,
               message = ''Unexpected closing brace, expected closing quote from line ''
                         @ str_nat (frame_line_number (last (stack v))),
               error_type = ''brace''\<rparr>"
    have p: "pop c line_num i v = (Some ?e, v)"
      using h assms(3) restore by (simp add: pop_def Let_def)
    have "process_chars line line_num i in_string v =
            process_chars line line_num (i + 1) False (v\<lparr>errors := errors v @ [?e]\<rparr>)"
      using h assms(1,2) p
      by (subst process_chars.simps) (simp add: record_error_def)
    with p show ?thesis by (simp add: record_error_def)
  next
    assume h: "c = DQ \<and> in_string \<and> char (last (stack v)) \<noteq> DQ"
    let ?e = "\<lparr>line_number = line_num,
               message = ''Unexpected closing quote, expected closing brace from line ''
                         @ str_nat (frame_line_number (last (stack v))),
               error_type = ''quote''\<rparr>"
    have p: "pop c line_num i v = (Some ?e, v)"
      using h assms(3) restore by (simp add: pop_def Let_def)
    have "process_chars line line_num i in_string v =
            process_chars line line_num (i + 1) False (v\<lparr>errors := errors v @ [?e]\<rparr>)"
      using h assms(1,2) p
      by (subst process_chars.simps) (simp add: record_error_def)
    with p show ?thesis by (simp add: record_error_def)
  qed
qed

theorem pop_mismatch_restores_stack_witness:
  "\<exists>e. pop (CHR ''}'') 2 0
          \<lparr>stack = [\<lparr>char = DQ, frame_line_number = 1, position = 4\<rparr>], errors = []\<rparr> =
        (Some e, \<lparr>stack = [\<lparr>char = DQ, frame_line_number = 1, position = 4\<rparr>], errors = []\<rparr>) \<and>
       line_number e = 2 \<and>
       process_chars ''}'' 2 0 False
          \<lparr>stack = [\<lparr>char = DQ, frame_line_number = 1, position = 4\<rparr>], errors = []\<rparr> =
       process_chars ''}'' 2 1 False
          \<lparr>stack = [\<lparr>char = DQ, frame_line_number = 1, position = 4\<rparr>], errors = [e]\<rparr>"
  using pop_mismatch_restores_stack [where i = 0 and line = "''}''" and c = "CHR ''}''"
      and v = "\<lparr>stack = [\<lparr>char = DQ, frame_line_number = 1, position = 4\<rparr>], errors = []\<rparr>"
      and in_string = False and line_num = 2]
  by auto

section \<open>The indentation pass\<close>

lemma length_indent_loop: "length (indent_loop strict ls lvl q) = length ls"
  by (induction ls arbitrary: lvl q) (simp_all add: Let_def)

lemma indent_loop_append:
  "indent_loop strict (pre @ rest) lvl q =
     indent_loop strict pre lvl q @
     indent_loop strict rest (fst (indent_state strict pre lvl q)) (snd (indent_state strict pre lvl q))"
  by (induction pre arbitrary: lvl q) (simp_all add: Let_def)

lemma apply_indentation_nth:
  "apply_indentation strict (pre @ line # suf) ! length pre =
     hd (indent_loop strict [line] (fst (indent_state strict pre 0 False))
                                  (snd (indent_state strict pre 0 False)))"
proof -
  have "apply_indentation strict (pre @ line # suf) = indent_loop strict (pre @ [line] @ suf) 0 False"
    by (simp add: apply_indentation_def)
  also have "\<dots> = indent_loop strict pre 0 False @
      indent_loop strict ([line] @ suf) (fst (indent_state strict pre 0 False)) (snd (indent_state strict pre 0 False))"
    by (rule indent_loop_append)
  finally show ?thesis
    by (simp add: nth_append length_indent_loop Let_def)
qed

lemma startswith_nonempty: "startswith s [c] \<Longrightarrow> s \<noteq> []"
  by (auto simp: startswith_def)

lemma startswith_char: "startswith s [c] \<longleftrightarrow> s \<noteq> [] \<and> hd s = c"
  by (cases s) (auto simp: startswith_def)

text \<open>
  C9.  Let \<open>depth\<close> be the level that the pass carries when it reaches a line, and let
  the pass not be inside a carried multi-line string there.  If the trimmed line starts with
  a closing brace (such a line is neither blank nor a comment) then it is written with
  \<open>max 0 (depth - 1)\<close> levels of two spaces.  The three-line example of the specification
  is indented as stated, in either mode.
\<close>

theorem closing_line_dedents:
  "(indent_state strict pre 0 False = (depth, False) \<and> startswith (strip line) ''}'' \<longrightarrow>
      strip line \<noteq> [] \<and> \<not> startswith (strip line) ''#'' \<and>
      apply_indentation strict (pre @ line # suf) ! length pre =
        replicate (nat (max 0 (depth - 1) * 2)) (CHR '' '') @ strip line) \<and>
   apply_indentation strict [''if {$x > 5} {'', ''puts '' @ [DQ] @ ''hi'' @ [DQ], ''}''] =
     [''if {$x > 5} {'', ''  puts '' @ [DQ] @ ''hi'' @ [DQ], ''}'']"
proof (intro conjI impI)
  assume h: "indent_state strict pre 0 False = (depth, False) \<and> startswith (strip line) ''}''"
  then show ne: "strip line \<noteq> []" by (auto simp: startswith_char)
  from h show nc: "\<not> startswith (strip line) ''#''" by (auto simp: startswith_char)
  from h ne nc show "apply_indentation strict (pre @ line # suf) ! length pre =
        replicate (nat (max 0 (depth - 1) * 2)) (CHR '' '') @ strip line"
    by (simp add: apply_indentation_nth Let_def calculate_indent_level_def INDENT_SIZE_def)
next
  have "apply_indentation b [''if {$x > 5} {'', ''puts '' @ [DQ] @ ''hi'' @ [DQ], ''}''] =
     [''if {$x > 5} {'', ''  puts '' @ [DQ] @ ''hi'' @ [DQ], ''}'']" if "b = True \<or> b = False" for b
    using that by (elim disjE; hypsubst) code_simp+
  then show "apply_indentation strict [''if {$x > 5} {'', ''puts '' @ [DQ] @ ''hi'' @ [DQ], ''}''] =
     [''if {$x > 5} {'', ''  puts '' @ [DQ] @ ''hi'' @ [DQ], ''}'']"
    by simp
qed

theorem closing_line_dedents_witness:
  "indent_state False [''if {$x > 5} {'', ''puts '' @ [DQ] @ ''hi'' @ [DQ]] 0 False = (1, False) \<and>
   startswith (strip ''    }  '') ''}'' \<and>
   apply_indentation False ([''if {$x > 5} {'', ''puts '' @ [DQ] @ ''hi'' @ [DQ]] @ ''    }  '' # [])
      ! length [''if {$x > 5} {'', ''puts '' @ [DQ] @ ''hi'' @ [DQ]] =
     replicate (nat (max 0 (1 - 1) * 2)) (CHR '' '') @ strip ''    }  ''"
proof -
  have h1: "indent_state False [''if {$x > 5} {'', ''puts '' @ [DQ] @ ''hi'' @ [DQ]] 0 False = (1, False)"
    by code_simp
  have h2: "startswith (strip ''    }  '') ''}''"
    by code_simp
  show ?thesis
    using h1 h2
      closing_line_dedents [of False "[''if {$x > 5} {'', ''puts '' @ [DQ] @ ''hi'' @ [DQ]]" 1
        "''    }  ''" "[]"]
    by blast
qed

lemma rstrip_decomp: "rstrip s @ rev (takeWhile is_space (rev s)) = s"
proof -
  have "rev (takeWhile is_space (rev s) @ dropWhile is_space (rev s)) = s"
    by simp
  then show ?thesis unfolding rstrip_def rev_append .
qed

lemma last_rstrip: "rstrip s \<noteq> [] \<Longrightarrow> \<not> is_space (last (rstrip s))"
  unfolding rstrip_def by (simp add: last_rev hd_dropWhile)

lemma hd_lstrip: "lstrip s \<noteq> [] \<Longrightarrow> \<not> is_space (hd (lstrip s))"
  unfolding lstrip_def by (simp add: hd_dropWhile)

lemma hd_rstrip: "rstrip s \<noteq> [] \<Longrightarrow> hd (rstrip s) = hd s"
  using rstrip_decomp [of s] by (metis hd_append2)

lemma strip_trimmed:
  assumes "strip s \<noteq> []"
  shows "\<not> is_space (hd (strip s))" and "\<not> is_space (last (strip s))"
proof -
  from assms have ne: "lstrip s \<noteq> []"
    by (auto simp: strip_def rstrip_def)
  from assms have "hd (strip s) = hd (lstrip s)"
    unfolding strip_def by (rule hd_rstrip)
  with ne show "\<not> is_space (hd (strip s))" by (simp add: hd_lstrip)
  from assms show "\<not> is_space (last (strip s))"
    unfolding strip_def by (rule last_rstrip)
qed

text \<open>
  C10.  At every position of the input, a blank line or a comment line is returned as it is,
  and any other line is replaced by its indent, two spaces per computed level, followed by
  the trimmed text of the line, which neither starts nor ends with whitespace: the leading
  and the trailing whitespace of the line are both gone.
\<close>

theorem indentation_rewrites_whole_line:
  "(strip line = [] \<or> startswith (strip line) ''#'' \<longrightarrow>
      apply_indentation strict (pre @ line # suf) ! length pre = line) \<and>
   (strip line \<noteq> [] \<and> \<not> startswith (strip line) ''#'' \<longrightarrow>
      apply_indentation strict (pre @ line # suf) ! length pre =
        replicate
          (nat (calculate_indent_level strict (strip line)
                  (fst (indent_state strict pre 0 False))
                  (snd (indent_state strict pre 0 False)) * 2))
          (CHR '' '') @ strip line \<and>
      \<not> is_space (hd (strip line)) \<and> \<not> is_space (last (strip line)))"
  by (auto simp: apply_indentation_nth Let_def INDENT_SIZE_def strip_trimmed)

theorem indentation_rewrites_whole_line_witness:
  "apply_indentation False ([''a {''] @ ''      b   '' # [''}'']) ! length [''a {''] = ''  b'' \<and>
   apply_indentation False ([''a {''] @ ''   # c  '' # [''}'']) ! length [''a {''] = ''   # c  '' \<and>
   apply_indentation False ([''a {''] @ ''     '' # [''}'']) ! length [''a {''] = ''     ''"
proof -
  have h1: "strip ''      b   '' \<noteq> [] \<and> \<not> startswith (strip ''      b   '') ''#''"
    by code_simp
  have h2: "startswith (strip ''   # c  '') ''#''"
    by code_simp
  have h3: "strip ''     '' = []"
    by code_simp
  have e1: "replicate
          (nat (calculate_indent_level False (strip ''      b   '')
                  (fst (indent_state False [''a {''] 0 False))
                  (snd (indent_state False [''a {''] 0 False)) * 2))
          (CHR '' '') @ strip ''      b   '' = ''  b''"
    by code_simp
  show ?thesis
    using h1 h2 h3 e1
      indentation_rewrites_whole_line [of "''      b   ''" False "[''a {'']" "[''}'']"]
      indentation_rewrites_whole_line [of "''   # c  ''" False "[''a {'']" "[''}'']"]
      indentation_rewrites_whole_line [of "''     ''" False "[''a {'']" "[''}'']"]
    by metis
qed

section \<open>Assignment lines without a value\<close>

text \<open>
  C2.  A line such as \<open>set x\<close> is recognised as a set command although it does not parse
  as one.  \<open>apply_single_space\<close> leaves it alone, but \<open>_find_set_blocks\<close> takes it into a
  block, and \<open>align_set_commands\<close> then raises instead of returning the line unmodified:
  \<open>_align_block\<close> returns fewer lines than the block has indices (\<open>IndexError\<close>), or finds
  nothing to take the maximum of (\<open>ValueError\<close>).
\<close>

theorem no_value_line_breaks_alignment:
  "is_set_command (strip ''set x'') \<and> parse_set_command ''set x'' = None \<and>
   find_set_blocks [''set x'', ''set y 1''] = [[0, 1]] \<and>
   align_set_commands [''set x'', ''set y 1''] = Inl IndexError \<and>
   align_set_commands [''set x'', ''set y''] = Inl ValueError \<and>
   apply_single_space [''set x'', ''set y 1''] = [''set x'', ''set y 1'']"
  by code_simp

section \<open>The orchestrator\<close>

text \<open>
  What \<open>format_file\<close> does with a file that has been read as \<open>lines\<close>.  If the validator
  reports diagnostics, the result is a failure, nothing is written as formatted output, the
  result does not depend on the formatting options (no rewrite pass takes part in it) and,
  the error log having been written, the result carries exactly the validator's diagnostics.
  If the validator reports nothing, \<open>_format_lines\<close> is indentation, followed by list
  expansion if enabled, followed by alignment if enabled and by single-space normalisation
  otherwise, and the lines that it returns are what is written as the output.
\<close>

theorem format_file_gates_rewriting:
  assumes "source_lines fs = Inr lines"
  shows "(validate lines \<noteq> [] \<longrightarrow>
            \<not> success (fst (format_file f fs)) \<and>
            (\<forall>p ls. Output p ls \<notin> set (snd (format_file f fs))) \<and>
            (\<forall>f'. format_file f' fs = format_file f fs) \<and>
            (error_log_raises fs = None \<longrightarrow>
               result_errors (fst (format_file f fs)) = Some (validate lines))) \<and>
         (validate lines = [] \<longrightarrow>
            format_lines f lines =
              (let indented = apply_indentation (strict_indent f) lines;
                   expanded = (if expand_lists f then expand_long_lists indented else indented)
               in if align_set f then align_set_commands expanded
                  else Inr (apply_single_space expanded)) \<and>
            (\<forall>out. format_lines f lines = Inr out \<and> output_raises fs = None \<longrightarrow>
               success (fst (format_file f fs)) \<and>
               snd (format_file f fs) = [Output (formatted_path fs) out]))"
proof (intro conjI impI)
  assume v: "validate lines \<noteq> []"
  show "\<not> success (fst (format_file f fs))"
    using assms v
    by (auto simp: format_file_def Let_def failure_result_def split: option.splits raised.splits)
  show "\<forall>p ls. Output p ls \<notin> set (snd (format_file f fs))"
    using assms v by (auto simp: format_file_def Let_def split: option.splits)
  show "\<forall>f'. format_file f' fs = format_file f fs"
    using assms v by (simp add: format_file_def Let_def)
  show "result_errors (fst (format_file f fs)) = Some (validate lines)"
    if "error_log_raises fs = None"
    using assms v that by (simp add: format_file_def Let_def)
next
  assume v: "validate lines = []"
  show "format_lines f lines =
              (let indented = apply_indentation (strict_indent f) lines;
                   expanded = (if expand_lists f then expand_long_lists indented else indented)
               in if align_set f then align_set_commands expanded
                  else Inr (apply_single_space expanded))"
    by (cases "lines = []")
       (simp_all add: format_lines_def apply_indentation_def expand_long_lists_def
          align_set_commands_def apply_single_space_def Let_def)
  show "\<forall>out. format_lines f lines = Inr out \<and> output_raises fs = None \<longrightarrow>
               success (fst (format_file f fs)) \<and>
               snd (format_file f fs) = [Output (formatted_path fs) out]"
    using assms v by (simp add: format_file_def Let_def)
qed

theorem format_file_gates_rewriting_witness:
  "validate [''{''] \<noteq> [] \<and>
   result_errors (fst (format_file \<lparr>align_set = True, expand_lists = True, strict_indent = False\<rparr>
      \<lparr>source_lines = Inr [''{''], error_log_path = ''errors.log'', error_log_raises = None,
        formatted_path = ''a_formatted.tcl'', output_raises = None, exc_text = (\<lambda>x. [])\<rparr>))
     = Some (validate [''{'']) \<and>
   validate [''set  x   1''] = [] \<and>
   snd (format_file \<lparr>align_set = False, expand_lists = False, strict_indent = False\<rparr>
      \<lparr>source_lines = Inr [''set  x   1''], error_log_path = ''errors.log'',
        error_log_raises = None, formatted_path = ''a_formatted.tcl'', output_raises = None,
        exc_text = (\<lambda>x. [])\<rparr>)
     = [Output ''a_formatted.tcl'' [''set x 1'']]"
proof -
  have h1: "validate [''{''] \<noteq> []"
    by code_simp
  have h2: "validate [''set  x   1''] = []"
    by code_simp
  have h3: "format_lines \<lparr>align_set = False, expand_lists = False, strict_indent = False\<rparr>
              [''set  x   1''] = Inr [''set x 1'']"
    by code_simp
  show ?thesis
    using h1 h2 h3
      format_file_gates_rewriting [where lines = "[''{'']"
        and f = "\<lparr>align_set = True, expand_lists = True, strict_indent = False\<rparr>"
        and fs = "\<lparr>source_lines = Inr [''{''], error_log_path = ''errors.log'',
                   error_log_raises = None, formatted_path = ''a_formatted.tcl'',
                   output_raises = None, exc_text = (\<lambda>x. [])\<rparr>"]
      format_file_gates_rewriting [where lines = "[''set  x   1'']"
        and f = "\<lparr>align_set = False, expand_lists = False, strict_indent = False\<rparr>"
        and fs = "\<lparr>source_lines = Inr [''set  x   1''], error_log_path = ''errors.log'',
                   error_log_raises = None, formatted_path = ''a_formatted.tcl'',
                   output_raises = None, exc_text = (\<lambda>x. [])\<rparr>"]
    by simp
qed

text \<open>
  C1.  The gate on diagnostics is as stated, but input that the validator accepts does not
  always give formatted output.  With alignment enabled, on two set lines of which the first
  has no value, the validator reports nothing, \<open>align_set_commands\<close> raises inside
  \<open>_format_lines\<close>, and \<open>format_file\<close> returns the failure of its last \<open>except\<close> clause:
  no output is written.  With alignment disabled the same file is formatted.
\<close>

theorem format_file_fails_on_accepted_input:
  "validate [''set x'', ''set y 1''] = [] \<and>
   format_file \<lparr>align_set = True, expand_lists = False, strict_indent = False\<rparr>
     \<lparr>source_lines = Inr [''set x'', ''set y 1''], error_log_path = ''errors.log'',
       error_log_raises = None, formatted_path = ''a_formatted.tcl'', output_raises = None,
       exc_text = (\<lambda>x. case x of ValueError \<Rightarrow> ''max() arg is an empty sequence''
                            | IndexError \<Rightarrow> ''list index out of range'')\<rparr> =
     (\<lparr>success = False, output_path = None, error_path = None, result_errors = None,
       result_message = ''Unexpected error: list index out of range''\<rparr>, []) \<and>
   format_file \<lparr>align_set = False, expand_lists = False, strict_indent = False\<rparr>
     \<lparr>source_lines = Inr [''set x'', ''set y 1''], error_log_path = ''errors.log'',
       error_log_raises = None, formatted_path = ''a_formatted.tcl'', output_raises = None,
       exc_text = (\<lambda>x. case x of ValueError \<Rightarrow> ''max() arg is an empty sequence''
                            | IndexError \<Rightarrow> ''list index out of range'')\<rparr> =
     (\<lparr>success = True, output_path = Some ''a_formatted.tcl'', error_path = None,
       result_errors = None,
       result_message = ''Successfully formatted to a_formatted.tcl''\<rparr>,
      [Output ''a_formatted.tcl'' [''set x'', ''set y 1'']])"
  by code_simp

section \<open>Continuation folding\<close>

lemma continue_fold:
  "j < length lines \<Longrightarrow>
   (case join_continuations lines j cur of
      (j', line') \<Rightarrow> handle_loop lines (j' + 1) (result @ [(n, line')])) =
   result @ fold_from n cur (j + 2) (drop (j + 1) lines)"
proof (induction "length lines - j" arbitrary: j cur n result)
  case 0
  then show ?case by simp
next
  case (Suc d)
  show ?case
  proof (cases "j + 1 < length lines")
    case last: False
    with Suc.prems have j: "j + 1 = length lines" by simp
    then have "join_continuations lines j cur = (j, cur)"
      by (subst join_continuations.simps) auto
    moreover have "handle_loop lines (j + 1) r = r" for r
      using j by (subst handle_loop.simps) simp
    ultimately show ?thesis using j by simp
  next
    case more: True
    then have dr: "drop (j + 1) lines = lines ! (j + 1) # drop (j + 2) lines"
      by (simp add: Cons_nth_drop_Suc)
    from Suc.hyps(2) more have d: "d = length lines - (j + 1)" by simp
    show ?thesis
    proof (cases "endswith (rstrip cur) [BSL]")
      case True
      with more have "join_continuations lines j cur =
          join_continuations lines (j + 1) (butlast (rstrip cur) @ lines ! (j + 1))"
        by (subst join_continuations.simps) auto
      then show ?thesis
        using Suc.hyps(1) [OF d more, where cur = "butlast (rstrip cur) @ lines ! (j + 1)"
            and result = result and n = n] True dr
        by simp
    next
      case False
      then have jc: "join_continuations lines j cur = (j, cur)"
        by (subst join_continuations.simps) simp
      have "handle_loop lines (j + 1) (result @ [(n, cur)]) =
              (case join_continuations lines (j + 1) (lines ! (j + 1)) of
                 (j', line') \<Rightarrow>
                   handle_loop lines (j' + 1) ((result @ [(n, cur)]) @ [(j + 2, line')]))"
        using more by (subst handle_loop.simps) (simp add: split_def Let_def)
      also have "\<dots> = (result @ [(n, cur)]) @
                        fold_from (j + 2) (lines ! (j + 1)) (j + 3) (drop (j + 2) lines)"
        using Suc.hyps(1) [OF d more, where cur = "lines ! (j + 1)"
            and result = "result @ [(n, cur)]" and n = "j + 2"]
        by (simp add: numeral_3_eq_3)
      finally show ?thesis using jc False dr by (simp add: numeral_3_eq_3)
    qed
  qed
qed

lemma handle_line_continuations_folded:
  "handle_line_continuations lines = folded_lines lines"
proof (cases lines)
  case Nil
  then show ?thesis
    by (simp add: handle_line_continuations_def folded_lines_def handle_loop.simps)
next
  case (Cons first rest)
  then have "handle_line_continuations lines =
      (case join_continuations lines 0 first of
         (j', line') \<Rightarrow> handle_loop lines (j' + 1) ([] @ [(1, line')]))"
    unfolding handle_line_continuations_def
    by (subst handle_loop.simps) (simp add: split_def Let_def)
  also have "\<dots> = [] @ fold_from 1 first (0 + 2) (drop (0 + 1) lines)"
    using Cons by (intro continue_fold) simp
  finally show ?thesis using Cons by (simp add: folded_lines_def numeral_2_eq_2)
qed

text \<open>
  C7, as the code has it.  The line being assembled (a physical line, or the result of the
  joins made so far) is joined with the next physical line if and only if there is a next
  line and the assembled text, trailing whitespace removed, ends in a backslash, escaped or
  not.  The trailing whitespace and that backslash are dropped and the next physical line is
  appended, again and again while the condition holds, and the folded line carries the
  1-based number of its first physical line.
\<close>

theorem continuation_folding:
  "handle_line_continuations lines = folded_lines lines"
  by (rule handle_line_continuations_folded)

theorem continuation_folding_witness:
  "handle_line_continuations [''set a '' @ [BSL] @ ''  '', ''1'', ''set b 2''] =
     [(1, ''set a 1''), (3, ''set b 2'')]"
proof -
  have "folded_lines [''set a '' @ [BSL] @ ''  '', ''1'', ''set b 2''] =
     [(1, ''set a 1''), (3, ''set b 2'')]"
    by code_simp
  then show ?thesis
    using continuation_folding [of "[''set a '' @ [BSL] @ ''  '', ''1'', ''set b 2'']"]
    by simp
qed

text \<open>
  C7, as stated, fails: a line whose last backslash is escaped by the one before it does not
  end in an unescaped backslash, and is joined with the next line all the same.
\<close>

theorem escaped_backslash_is_folded:
  "\<not> ends_in_unescaped_backslash (rstrip (''a'' @ [BSL, BSL])) \<and>
   handle_line_continuations [''a'' @ [BSL, BSL], ''b''] = [(1, ''a'' @ [BSL] @ ''b'')]"
  by code_simp

section \<open>Alignment\<close>

lemma indent_prefix: "take (length s - length (lstrip s)) s = takeWhile is_space s"
proof -
  have "length s - length (dropWhile is_space s) = length (takeWhile is_space s)"
    by (metis add_diff_cancel_right' length_append takeWhile_dropWhile_id)
  then show ?thesis
    by (metis lstrip_def append_eq_conv_conj takeWhile_dropWhile_id)
qed

lemma nonblank_dropWhile: "nonblank (dropWhile is_space s) = nonblank s"
  by (induction s) auto

lemma nonblank_lstrip: "nonblank (lstrip s) = nonblank s"
  by (simp add: lstrip_def nonblank_dropWhile)

lemma nonblank_rstrip: "nonblank (rstrip s) = nonblank s"
proof -
  have "nonblank (rev (takeWhile is_space (rev s))) = []"
    by (auto simp: filter_empty_conv dest: set_takeWhileD)
  then have "nonblank (rstrip s @ rev (takeWhile is_space (rev s))) = nonblank (rstrip s)"
    by simp
  then show ?thesis by (simp only: rstrip_decomp)
qed

lemma nonblank_strip: "nonblank (strip s) = nonblank s"
  by (simp add: strip_def nonblank_rstrip nonblank_lstrip)

lemma nonblank_takeWhile: "nonblank (takeWhile (\<lambda>c. \<not> is_space c) s) = takeWhile (\<lambda>c. \<not> is_space c) s"
  by (induction s) auto

lemma last_dropWhile: "dropWhile P xs \<noteq> [] \<Longrightarrow> last (dropWhile P xs) = last xs"
  by (induction xs) (auto split: if_splits)

lemma rstrip_id: "s \<noteq> [] \<Longrightarrow> \<not> is_space (last s) \<Longrightarrow> rstrip s = s"
proof -
  assume "s \<noteq> []" "\<not> is_space (last s)"
  then have "dropWhile is_space (rev s) = rev s"
    by (cases "rev s") (auto simp: last_rev [symmetric] hd_rev)
  then show ?thesis by (simp add: rstrip_def)
qed

lemma split_ws1_two:
  assumes "\<not> length (split_ws1 r) < 2"
  shows "dropWhile is_space r \<noteq> []"
    and "dropWhile is_space (dropWhile (\<lambda>c. \<not> is_space c) (dropWhile is_space r)) \<noteq> []"
    and "split_ws1 r = [takeWhile (\<lambda>c. \<not> is_space c) (dropWhile is_space r),
           dropWhile is_space (dropWhile (\<lambda>c. \<not> is_space c) (dropWhile is_space r))]"
proof -
  show 1: "dropWhile is_space r \<noteq> []"
  proof
    assume a: "dropWhile is_space r = []"
    have "split_ws1 r = []" unfolding split_ws1_def Let_def by (simp only: a if_True simp_thms)
    with assms show False by simp
  qed
  show 2: "dropWhile is_space (dropWhile (\<lambda>c. \<not> is_space c) (dropWhile is_space r)) \<noteq> []"
  proof
    assume a: "dropWhile is_space (dropWhile (\<lambda>c. \<not> is_space c) (dropWhile is_space r)) = []"
    have "split_ws1 r = [takeWhile (\<lambda>c. \<not> is_space c) (dropWhile is_space r)]"
      unfolding split_ws1_def Let_def by (simp only: 1 a if_True if_False simp_thms)
    with assms show False by simp
  qed
  show "split_ws1 r = [takeWhile (\<lambda>c. \<not> is_space c) (dropWhile is_space r),
           dropWhile is_space (dropWhile (\<lambda>c. \<not> is_space c) (dropWhile is_space r))]"
    unfolding split_ws1_def Let_def by (simp only: 1 2 if_False simp_thms)
qed

lemma parse_set_command_unfold:
  "parse_set_command line =
     (if \<not> startswith (strip line) ''set '' then None
      else if length (split_ws1 (drop 4 (strip line))) < 2 then None
      else Some \<lparr>indent = take (length line - length (lstrip line)) line,
                  variable = split_ws1 (drop 4 (strip line)) ! 0,
                  val = split_ws1 (drop 4 (strip line)) ! 1\<rparr>)"
  by (simp only: parse_set_command_def Let_def)

lemma parse_set_command_Some:
  assumes "parse_set_command line = Some p"
  shows "indent p = takeWhile is_space line"
    and "variable p \<noteq> []" and "\<forall>c \<in> set (variable p). \<not> is_space c"
    and "val p \<noteq> []" and "\<not> is_space (hd (val p))" and "\<not> is_space (last (val p))"
    and "nonblank line = ''set'' @ variable p @ nonblank (val p)"
proof -
  let ?st = "strip line"
  let ?rem = "drop 4 ?st"
  let ?s1 = "dropWhile is_space ?rem"
  let ?tok = "takeWhile (\<lambda>c. \<not> is_space c) ?s1"
  let ?rest = "dropWhile is_space (dropWhile (\<lambda>c. \<not> is_space c) ?s1)"
  from assms have sw: "startswith ?st ''set ''"
    unfolding parse_set_command_unfold by (simp split: if_splits)
  from assms have two: "\<not> length (split_ws1 ?rem) < 2"
    unfolding parse_set_command_unfold by (simp split: if_splits)
  note s1 = split_ws1_two(1) [OF two] and rest = split_ws1_two(2) [OF two]
    and parts = split_ws1_two(3) [OF two]
  from assms sw two have "p = \<lparr>indent = take (length line - length (lstrip line)) line,
      variable = split_ws1 ?rem ! 0, val = split_ws1 ?rem ! 1\<rparr>"
    unfolding parse_set_command_unfold by simp
  then have p: "p = \<lparr>indent = takeWhile is_space line, variable = ?tok, val = ?rest\<rparr>"
    by (simp only: parts indent_prefix nth_Cons_0 nth_Cons_Suc One_nat_def)
  show "indent p = takeWhile is_space line"
    by (simp add: p)
  have "\<not> is_space (hd ?s1)" using s1 by (rule hd_dropWhile)
  then have "?tok \<noteq> []"
    using s1 by (cases ?s1) simp_all
  then show "variable p \<noteq> []" by (simp only: p set_command.simps simp_thms)
  show "\<forall>c \<in> set (variable p). \<not> is_space c"
    unfolding p by (auto dest: set_takeWhileD)
  show "val p \<noteq> []" using rest by (simp only: p set_command.simps simp_thms)
  have "\<not> is_space (hd ?rest)" using rest by (rule hd_dropWhile)
  then show "\<not> is_space (hd (val p))" by (simp only: p set_command.simps simp_thms)
  have st_ne: "?st \<noteq> []" using sw by (auto simp: startswith_def)
  have "last ?rest = last (dropWhile (\<lambda>c. \<not> is_space c) ?s1)"
    using rest by (rule last_dropWhile)
  also have "\<dots> = last ?s1"
  proof (rule last_dropWhile)
    show "dropWhile (\<lambda>c. \<not> is_space c) ?s1 \<noteq> []"
      using rest by (metis dropWhile.simps(1))
  qed
  also have "\<dots> = last ?rem"
    using s1 by (rule last_dropWhile)
  also have "\<dots> = last ?st"
  proof (rule last_drop)
    show "4 < length ?st" using s1 by (metis dropWhile.simps(1) drop_eq_Nil not_le)
  qed
  finally have "last ?rest = last ?st" .
  with strip_trimmed(2) [OF st_ne] show "\<not> is_space (last (val p))"
    by (simp only: p set_command.simps simp_thms)
  have "length ''set '' = 4" by simp
  with sw have "take 4 ?st = ''set ''"
    unfolding startswith_def by (simp only:)
  then have st: "?st = ''set '' @ ?rem"
    using append_take_drop_id [of 4 ?st] by simp
  have "nonblank line = nonblank ?st" by (simp only: nonblank_strip)
  also have "\<dots> = nonblank (''set '' @ ?rem)"
    using st by simp
  also have "\<dots> = ''set'' @ nonblank ?rem"
    by (simp add: is_space_def)
  also have "nonblank ?rem = nonblank ?s1"
    by (simp only: nonblank_dropWhile)
  also have "?s1 = ?tok @ dropWhile (\<lambda>c. \<not> is_space c) ?s1"
    by (simp only: takeWhile_dropWhile_id)
  also have "nonblank (?tok @ dropWhile (\<lambda>c. \<not> is_space c) ?s1) = ?tok @ nonblank ?rest"
    by (simp only: filter_append nonblank_takeWhile nonblank_dropWhile)
  finally show "nonblank line = ''set'' @ variable p @ nonblank (val p)"
    by (simp only: p set_command.simps simp_thms)
qed

lemma dropWhile_hd_id: "s \<noteq> [] \<Longrightarrow> \<not> P (hd s) \<Longrightarrow> dropWhile P s = s"
  by (cases s) simp_all

lemma is_space_blank: "is_space (CHR '' '')"
  by (simp add: is_space_def)

lemma split_ws1_var_val:
  assumes var: "var \<noteq> []" "\<forall>c \<in> set var. \<not> is_space c"
    and v: "v \<noteq> []" "\<not> is_space (hd v)"
  shows "split_ws1 (var @ replicate (Suc k) (CHR '' '') @ v) = [var, v]"
proof -
  let ?pad = "replicate (Suc k) (CHR '' '')"
  let ?r = "var @ ?pad @ v"
  have hdv: "\<not> is_space (hd var)" using var by (cases var) auto
  have d1: "dropWhile is_space ?r = ?r"
    using var(1) hdv by (intro dropWhile_hd_id) simp_all
  have t: "takeWhile (\<lambda>c. \<not> is_space c) ?r = var"
  proof -
    have "takeWhile (\<lambda>c. \<not> is_space c) ?r = var @ takeWhile (\<lambda>c. \<not> is_space c) (?pad @ v)"
      using var(2) by (intro takeWhile_append2) simp
    also have "takeWhile (\<lambda>c. \<not> is_space c) (?pad @ v) = []"
      by (simp add: is_space_blank)
    finally show ?thesis by simp
  qed
  have d2: "dropWhile (\<lambda>c. \<not> is_space c) ?r = ?pad @ v"
  proof -
    have "dropWhile (\<lambda>c. \<not> is_space c) ?r = dropWhile (\<lambda>c. \<not> is_space c) (?pad @ v)"
      using var(2) by (intro dropWhile_append2) simp
    also have "\<dots> = ?pad @ v"
      by (simp add: is_space_blank)
    finally show ?thesis .
  qed
  have d3: "dropWhile is_space (?pad @ v) = v"
  proof -
    have "dropWhile is_space (?pad @ v) = dropWhile is_space v"
      by (intro dropWhile_append2) (auto simp: is_space_blank)
    also have "\<dots> = v" using v by (rule dropWhile_hd_id)
    finally show ?thesis .
  qed
  have ne: "?r \<noteq> []" using var(1) by simp
  show ?thesis
    unfolding split_ws1_def Let_def d1 t d2 d3
    using ne v(1) by (simp only: if_False simp_thms)
qed

lemma parse_aligned_line:
  assumes "parse_set_command line = Some p"
  shows "parse_set_command (aligned_line p k) = Some p"
proof -
  note f = parse_set_command_Some [OF assms]
  let ?body = "''set '' @ variable p @ replicate (Suc k) (CHR '' '') @ val p"
  let ?L = "indent p @ ?body"
  have ind: "\<forall>c \<in> set (indent p). is_space c"
    unfolding f(1) by (auto dest: set_takeWhileD)
  have nsp: "\<not> is_space (CHR ''s'')" by (simp add: is_space_def)
  have l: "lstrip ?L = ?body"
  proof -
    have "dropWhile is_space ?L = dropWhile is_space ?body"
      using ind by (intro dropWhile_append2) simp
    also have "\<dots> = ?body"
      using nsp by (intro dropWhile_hd_id) simp_all
    finally show ?thesis by (simp only: lstrip_def)
  qed
  have "last ?body = last (val p)"
    using f(4) by simp
  then have "rstrip ?body = ?body"
    using f(6) by (intro rstrip_id) simp_all
  with l have st: "strip ?L = ?body"
    by (simp only: strip_def)
  have len: "length ?L - length (lstrip ?L) = length (indent p)"
    unfolding l by simp
  have i: "take (length ?L - length (lstrip ?L)) ?L = indent p"
    unfolding len by simp
  have sw: "startswith (strip ?L) ''set ''"
    unfolding st by (simp add: startswith_def)
  have dr: "drop 4 (strip ?L) = variable p @ replicate (Suc k) (CHR '' '') @ val p"
    unfolding st by simp
  have sp: "split_ws1 (drop 4 (strip ?L)) = [variable p, val p]"
    unfolding dr using f(2,3,4,5) by (rule split_ws1_var_val)
  have "parse_set_command ?L = Some \<lparr>indent = indent p, variable = variable p, val = val p\<rparr>"
    unfolding parse_set_command_unfold sp i using sw by simp
  then show ?thesis by (simp add: aligned_line_def)
qed

lemma aligned_line_same_text:
  assumes "parse_set_command line = Some p"
  shows "nonblank (aligned_line p k) = nonblank line"
    and "takeWhile is_space (aligned_line p k) = takeWhile is_space line"
proof -
  note f = parse_set_command_Some [OF assms]
  have ind: "\<forall>c \<in> set (indent p). is_space c"
    unfolding f(1) by (auto dest: set_takeWhileD)
  then have n1: "nonblank (indent p) = []"
    by (simp add: filter_empty_conv)
  have n2: "nonblank ''set '' = ''set''"
    by (simp add: is_space_def)
  have n3: "nonblank (variable p) = variable p"
    using f(3) by (simp add: filter_id_conv)
  have n4: "nonblank (replicate (Suc k) (CHR '' '')) = []"
    by (simp add: filter_empty_conv is_space_blank)
  show "nonblank (aligned_line p k) = nonblank line"
    unfolding f(7) aligned_line_def filter_append n1 n2 n3 n4 by simp
  have nsp: "\<not> is_space (CHR ''s'')" by (simp add: is_space_def)
  have "takeWhile is_space (aligned_line p k) =
          indent p @ takeWhile is_space (''set '' @ variable p @ replicate (Suc k) (CHR '' '') @ val p)"
    unfolding aligned_line_def using ind by (intro takeWhile_append2) simp
  also have "\<dots> = indent p" using nsp by simp
  finally show "takeWhile is_space (aligned_line p k) = takeWhile is_space line"
    by (simp only: f(1))
qed

lemma flush_block_good:
  assumes "\<forall>b \<in> set blocks. b \<noteq> [] \<and> set_lines_at L b" and "set_lines_at L cur"
  shows "\<forall>b \<in> set (flush_block blocks cur). b \<noteq> [] \<and> set_lines_at L b"
  using assms by (auto simp: flush_block_def)

lemma set_lines_at_Nil: "set_lines_at L []"
  by (simp add: set_lines_at_def)

lemma find_loop_good:
  assumes "\<forall>k < length rest. i + k < length L \<and> L ! (i + k) = rest ! k"
    and "\<forall>b \<in> set blocks. b \<noteq> [] \<and> set_lines_at L b"
    and "set_lines_at L cur"
  shows "\<forall>b \<in> set (find_loop rest i blocks cur ci). b \<noteq> [] \<and> set_lines_at L b"
  using assms
proof (induction rest arbitrary: i blocks cur ci)
  case Nil
  show ?case
    using flush_block_good [OF Nil.prems(2,3)] by simp
next
  case (Cons line rest)
  have "i + 0 < length L \<and> L ! (i + 0) = (line # rest) ! 0"
    using Cons.prems(1) [rule_format, of 0] by simp
  then have here: "i < length L" "L ! i = line"
    by simp_all
  have tail: "\<forall>k < length rest. (i + 1) + k < length L \<and> L ! ((i + 1) + k) = rest ! k"
  proof (intro allI impI)
    fix k assume "k < length rest"
    then have "Suc k < length (line # rest)" by simp
    from Cons.prems(1) [rule_format, OF this]
    show "(i + 1) + k < length L \<and> L ! ((i + 1) + k) = rest ! k" by simp
  qed
  note fl = flush_block_good [OF Cons.prems(2,3)]
  note nil = set_lines_at_Nil [of L]
  have step: "find_loop (line # rest) i blocks cur ci =
     (if strip line = [] then find_loop rest (i + 1) blocks cur ci
      else if startswith (strip line) ''#'' then
        find_loop rest (i + 1) (flush_block blocks cur) [] None
      else if is_set_command (strip line) then
        (if ci = None \<or> ci = Some (length line - length (lstrip line)) then
           find_loop rest (i + 1) blocks (cur @ [i]) (Some (length line - length (lstrip line)))
         else
           find_loop rest (i + 1) (flush_block blocks cur) [i]
             (Some (length line - length (lstrip line))))
      else find_loop rest (i + 1) (flush_block blocks cur) [] None)"
    by (simp only: find_loop.simps Let_def)
  have one: "set_lines_at L [i]" if "is_set_command (strip line)"
    using that here by (simp add: set_lines_at_def)
  have app: "set_lines_at L (cur @ [i])" if "is_set_command (strip line)"
    using one [OF that] Cons.prems(3) by (auto simp: set_lines_at_def)
  show ?case
  proof (cases "strip line = []")
    case True
    have "find_loop (line # rest) i blocks cur ci = find_loop rest (i + 1) blocks cur ci"
      by (simp only: step True if_True simp_thms)
    then show ?thesis
      using Cons.IH [OF tail Cons.prems(2,3)] by (simp only:)
  next
    case ne: False
    show ?thesis
    proof (cases "startswith (strip line) ''#''")
      case True
      have "find_loop (line # rest) i blocks cur ci =
              find_loop rest (i + 1) (flush_block blocks cur) [] None"
        by (simp only: step ne True if_True if_False simp_thms)
      then show ?thesis
        using Cons.IH [OF tail fl nil] by (simp only:)
    next
      case nc: False
      show ?thesis
      proof (cases "is_set_command (strip line)")
        case False
        have "find_loop (line # rest) i blocks cur ci =
                find_loop rest (i + 1) (flush_block blocks cur) [] None"
          by (simp only: step ne nc False if_False simp_thms)
        then show ?thesis
          using Cons.IH [OF tail fl nil] by (simp only:)
      next
        case True
        show ?thesis
        proof (cases "ci = None \<or> ci = Some (length line - length (lstrip line))")
          case same: True
          have "find_loop (line # rest) i blocks cur ci =
                  find_loop rest (i + 1) blocks (cur @ [i])
                    (Some (length line - length (lstrip line)))"
            by (simp only: step ne nc True same if_True if_False simp_thms)
          then show ?thesis
            using Cons.IH [OF tail Cons.prems(2) app [OF True]] by (simp only:)
        next
          case other: False
          have "find_loop (line # rest) i blocks cur ci =
                  find_loop rest (i + 1) (flush_block blocks cur) [i]
                    (Some (length line - length (lstrip line)))"
            by (simp only: step ne nc True other if_True if_False simp_thms)
          then show ?thesis
            using Cons.IH [OF tail fl one [OF True]] by (simp only:)
        qed
      qed
    qed
  qed
qed

lemma find_set_blocks_good:
  "\<forall>b \<in> set (find_set_blocks lines). b \<noteq> [] \<and> set_lines_at lines b"
  unfolding find_set_blocks_def
  by (rule find_loop_good) (simp_all add: set_lines_at_Nil)

lemma map_filter_all_Some:
  "\<forall>x \<in> set xs. f x \<noteq> None \<Longrightarrow> List.map_filter f xs = map (\<lambda>x. the (f x)) xs"
  by (induction xs) (auto simp: map_filter_simps)

lemma align_block_ok:
  assumes "b \<noteq> []"
    and "\<forall>i \<in> set b. i < length res \<and> parse_set_command (res ! i) \<noteq> None"
  shows "\<exists>al. align_block res b = Inr al \<and> length al = length b \<and>
           (\<forall>t < length b. \<exists>k. al ! t = aligned_line (the (parse_set_command (res ! (b ! t)))) k)"
proof -
  let ?cmds = "map (\<lambda>i. the (parse_set_command (res ! i))) b"
  let ?m = "max_var_length ?cmds"
  let ?al = "map (\<lambda>cmd. aligned_line cmd (?m - length (variable cmd))) ?cmds"
  have rng: "\<not> (\<exists>i \<in> set b. length res \<le> i)"
    using assms(2) by (auto simp: not_le)
  have "\<forall>l \<in> set (map (\<lambda>i. res ! i) b). parse_set_command l \<noteq> None"
    using assms(2) by auto
  then have "List.map_filter parse_set_command (map (\<lambda>i. res ! i) b) =
               map (\<lambda>l. the (parse_set_command l)) (map (\<lambda>i. res ! i) b)"
    by (rule map_filter_all_Some)
  then have mf: "List.map_filter parse_set_command (map (\<lambda>i. res ! i) b) = ?cmds"
    by (simp add: comp_def)
  have ne: "?cmds \<noteq> []" using assms(1) by simp
  have "align_block res b = Inr ?al"
    unfolding align_block_def Let_def mf using rng ne
    by (simp add: aligned_line_def)
  moreover have "length ?al = length b" by simp
  moreover have "\<forall>t < length b. \<exists>k. ?al ! t = aligned_line (the (parse_set_command (res ! (b ! t)))) k"
    by auto
  ultimately show ?thesis by blast
qed

lemma replace_lines_ok:
  assumes "k + length b \<le> length al" and "\<forall>i \<in> set b. i < length res"
  shows "\<exists>res'. replace_lines res b k al = Inr res' \<and> length res' = length res \<and>
           (\<forall>j < length res. res' ! j = res ! j \<or>
              (\<exists>t < length b. b ! t = j \<and> res' ! j = al ! (k + t)))"
  using assms
proof (induction b arbitrary: res k)
  case Nil
  then show ?case by simp
next
  case (Cons idx rest)
  let ?res1 = "res[idx := al ! k]"
  from Cons.prems have k: "\<not> length al \<le> k" and idx: "\<not> length res \<le> idx"
    by auto
  have "(k + 1) + length rest \<le> length al" using Cons.prems(1) by simp
  moreover have "\<forall>i \<in> set rest. i < length ?res1" using Cons.prems(2) by simp
  ultimately obtain res' where r: "replace_lines ?res1 rest (k + 1) al = Inr res'"
      and len: "length res' = length ?res1"
      and each: "\<forall>j < length ?res1. res' ! j = ?res1 ! j \<or>
              (\<exists>t < length rest. rest ! t = j \<and> res' ! j = al ! ((k + 1) + t))"
    using Cons.IH [of "k + 1" ?res1] by blast
  have "replace_lines res (idx # rest) k al = Inr res'"
    using k idx r by simp
  moreover have "length res' = length res" using len by simp
  moreover have "\<forall>j < length res. res' ! j = res ! j \<or>
              (\<exists>t < length (idx # rest). (idx # rest) ! t = j \<and> res' ! j = al ! (k + t))"
  proof (intro allI impI)
    fix j assume j: "j < length res"
    then have "res' ! j = ?res1 ! j \<or>
              (\<exists>t < length rest. rest ! t = j \<and> res' ! j = al ! ((k + 1) + t))"
      using each by simp
    then show "res' ! j = res ! j \<or>
              (\<exists>t < length (idx # rest). (idx # rest) ! t = j \<and> res' ! j = al ! (k + t))"
    proof
      assume a: "res' ! j = ?res1 ! j"
      show ?thesis
      proof (cases "j = idx")
        case True
        with a j have "res' ! j = al ! (k + 0)" by simp
        with True have "0 < length (idx # rest) \<and> (idx # rest) ! 0 = j \<and> res' ! j = al ! (k + 0)"
          by simp
        then show ?thesis by blast
      next
        case False
        with a show ?thesis by simp
      qed
    next
      assume "\<exists>t < length rest. rest ! t = j \<and> res' ! j = al ! ((k + 1) + t)"
      then obtain t where t: "t < length rest" "rest ! t = j" "res' ! j = al ! ((k + 1) + t)"
        by blast
      then have "Suc t < length (idx # rest) \<and> (idx # rest) ! Suc t = j \<and>
                 res' ! j = al ! (k + Suc t)"
        by simp
      then show ?thesis by blast
    qed
  qed
  ultimately show ?case by blast
qed

lemma all_space_takeWhile: "\<forall>c \<in> set (takeWhile is_space s). is_space c"
  by (auto dest: set_takeWhileD)

lemma parse_set_command_shape:
  assumes "parse_set_command line = Some p"
  shows "\<exists>ws1 ws2 trail.
           line = indent p @ ''set'' @ ws1 @ variable p @ ws2 @ val p @ trail \<and>
           ws1 \<noteq> [] \<and> (\<forall>c \<in> set ws1. is_space c) \<and>
           ws2 \<noteq> [] \<and> (\<forall>c \<in> set ws2. is_space c) \<and>
           (\<forall>c \<in> set trail. is_space c)"
proof -
  let ?st = "strip line"
  let ?rem = "drop 4 ?st"
  let ?s1 = "dropWhile is_space ?rem"
  let ?tok = "takeWhile (\<lambda>c. \<not> is_space c) ?s1"
  let ?r2 = "dropWhile (\<lambda>c. \<not> is_space c) ?s1"
  let ?rest = "dropWhile is_space ?r2"
  let ?trail = "rev (takeWhile is_space (rev (lstrip line)))"
  from assms have sw: "startswith ?st ''set ''"
    unfolding parse_set_command_unfold by (simp split: if_splits)
  from assms have two: "\<not> length (split_ws1 ?rem) < 2"
    unfolding parse_set_command_unfold by (simp split: if_splits)
  note rest = split_ws1_two(2) [OF two] and parts = split_ws1_two(3) [OF two]
  from assms sw two have "p = \<lparr>indent = take (length line - length (lstrip line)) line,
      variable = split_ws1 ?rem ! 0, val = split_ws1 ?rem ! 1\<rparr>"
    unfolding parse_set_command_unfold by simp
  then have p: "p = \<lparr>indent = takeWhile is_space line, variable = ?tok, val = ?rest\<rparr>"
    by (simp only: parts indent_prefix nth_Cons_0 nth_Cons_Suc One_nat_def)
  have "length ''set '' = 4" by simp
  with sw have "take 4 ?st = ''set ''"
    unfolding startswith_def by (simp only:)
  then have st: "?st = ''set'' @ CHR '' '' # ?rem"
    using append_take_drop_id [of 4 ?st] by simp
  have l1: "line = takeWhile is_space line @ lstrip line"
    by (simp only: lstrip_def takeWhile_dropWhile_id)
  have l2: "lstrip line = ?st @ ?trail"
    unfolding strip_def by (simp only: rstrip_decomp)
  have l3: "?rem = takeWhile is_space ?rem @ ?s1"
    by (simp only: takeWhile_dropWhile_id)
  have l4: "?s1 = ?tok @ ?r2"
    by (simp only: takeWhile_dropWhile_id)
  have l5: "?r2 = takeWhile is_space ?r2 @ ?rest"
    by (simp only: takeWhile_dropWhile_id)
  have r2: "?r2 \<noteq> []"
    using rest by (metis dropWhile.simps(1))
  then have "\<not> \<not> is_space (hd ?r2)" by (rule hd_dropWhile)
  with r2 have ws2: "takeWhile is_space ?r2 \<noteq> []"
    by (cases ?r2) simp_all
  let ?ws1 = "CHR '' '' # takeWhile is_space ?rem"
  let ?ws2 = "takeWhile is_space ?r2"
  have "line = takeWhile is_space line @ ''set'' @ ?ws1 @ ?tok @ ?ws2 @ ?rest @ ?trail"
  proof -
    have "line = takeWhile is_space line @ (?st @ ?trail)"
      using l1 l2 by (simp only:)
    also have "?st @ ?trail = (''set'' @ CHR '' '' # ?rem) @ ?trail"
      using st by (simp only:)
    also have "\<dots> = ''set'' @ CHR '' '' # (takeWhile is_space ?rem @ ?s1) @ ?trail"
      using l3 by (simp only: append_assoc append_Cons)
    also have "\<dots> = ''set'' @ CHR '' '' # (takeWhile is_space ?rem @ (?tok @ ?r2)) @ ?trail"
      using l4 by (simp only:)
    also have "\<dots> = ''set'' @ CHR '' '' #
                  (takeWhile is_space ?rem @ (?tok @ (takeWhile is_space ?r2 @ ?rest))) @ ?trail"
      using l5 by (simp only:)
    finally show ?thesis by (simp only: append_assoc append_Cons)
  qed
  then have "line = indent p @ ''set'' @ ?ws1 @ variable p @ ?ws2 @ val p @ ?trail"
    by (simp only: p set_command.simps)
  moreover have "?ws1 \<noteq> []" by simp
  moreover have "\<forall>c \<in> set ?ws1. is_space c"
    using all_space_takeWhile [of ?rem] by (simp add: is_space_def)
  moreover note ws2
  moreover have "\<forall>c \<in> set ?ws2. is_space c" by (rule all_space_takeWhile)
  moreover have "\<forall>c \<in> set ?trail. is_space c"
    using all_space_takeWhile [of "rev (lstrip line)"] by simp
  ultimately show ?thesis by blast
qed

lemma aligned_text_refl: "aligned_text lines B lines"
  by (simp add: aligned_text_def)

lemma aligned_text_parse:
  assumes "aligned_text lines B res" and "j < length lines"
    and "parse_set_command (lines ! j) = Some p"
  shows "parse_set_command (res ! j) = Some p"
proof -
  from assms(1,2) have "res ! j = lines ! j \<or>
      (\<exists>p' k. parse_set_command (lines ! j) = Some p' \<and> res ! j = aligned_line p' k)"
    by (auto simp: aligned_text_def)
  then show ?thesis
  proof
    assume "res ! j = lines ! j"
    with assms(3) show ?thesis by simp
  next
    assume "\<exists>p' k. parse_set_command (lines ! j) = Some p' \<and> res ! j = aligned_line p' k"
    then obtain p' k where "parse_set_command (lines ! j) = Some p'" "res ! j = aligned_line p' k"
      by blast
    with assms(3) have "res ! j = aligned_line p k" by simp
    with parse_aligned_line [OF assms(3), of k] show ?thesis by simp
  qed
qed

lemma block_step:
  assumes inv: "aligned_text lines B res" and b: "b \<noteq> []" "set b \<subseteq> B"
    and ok: "\<forall>i \<in> set b. i < length lines \<and> parse_set_command (lines ! i) \<noteq> None"
  shows "\<exists>res'. (case align_block res b of Inl e \<Rightarrow> Inl e
                  | Inr al \<Rightarrow> replace_lines res b 0 al) = Inr res' \<and> aligned_text lines B res'"
proof -
  from inv have len: "length res = length lines"
    by (simp add: aligned_text_def)
  have inb: "i < length res \<and> parse_set_command (res ! i) = parse_set_command (lines ! i) \<and>
             parse_set_command (lines ! i) \<noteq> None" if "i \<in> set b" for i
  proof -
    from ok that have i: "i < length lines" and "parse_set_command (lines ! i) \<noteq> None"
      by simp_all
    then obtain p where p: "parse_set_command (lines ! i) = Some p" by auto
    from aligned_text_parse [OF inv i p] p i len show ?thesis by simp
  qed
  then have "\<forall>i \<in> set b. i < length res \<and> parse_set_command (res ! i) \<noteq> None"
    by simp
  from align_block_ok [OF b(1) this] obtain al where
    al: "align_block res b = Inr al" "length al = length b"
      "\<forall>t < length b. \<exists>k. al ! t = aligned_line (the (parse_set_command (res ! (b ! t)))) k"
    by blast
  have "0 + length b \<le> length al" using al(2) by simp
  moreover have "\<forall>i \<in> set b. i < length res" using inb by blast
  ultimately obtain res' where
    r: "replace_lines res b 0 al = Inr res'" "length res' = length res"
      "\<forall>j < length res. res' ! j = res ! j \<or>
          (\<exists>t < length b. b ! t = j \<and> res' ! j = al ! (0 + t))"
    using replace_lines_ok [of 0 b al res] by blast
  have "aligned_text lines B res'"
    unfolding aligned_text_def
  proof (intro conjI allI impI)
    show "length res' = length lines" using r(2) len by simp
  next
    fix j assume j: "j < length lines"
    from inv j have old: "res ! j = lines ! j \<or>
        (j \<in> B \<and> (\<exists>p k. parse_set_command (lines ! j) = Some p \<and> res ! j = aligned_line p k))"
      by (simp add: aligned_text_def)
    from r(3) j len have "res' ! j = res ! j \<or>
          (\<exists>t < length b. b ! t = j \<and> res' ! j = al ! t)"
      by simp
    then show "res' ! j = lines ! j \<or>
        (j \<in> B \<and> (\<exists>p k. parse_set_command (lines ! j) = Some p \<and> res' ! j = aligned_line p k))"
    proof
      assume "res' ! j = res ! j"
      with old show ?thesis by simp
    next
      assume "\<exists>t < length b. b ! t = j \<and> res' ! j = al ! t"
      then obtain t where t: "t < length b" "b ! t = j" "res' ! j = al ! t" by blast
      then have jb: "j \<in> set b" by auto
      from al(3) t obtain k where
        k: "res' ! j = aligned_line (the (parse_set_command (res ! j))) k"
        by auto
      from inb [OF jb] obtain p where p: "parse_set_command (lines ! j) = Some p"
        and "parse_set_command (res ! j) = Some p"
        by auto
      with k have "res' ! j = aligned_line p k" by simp
      with p jb b(2) show ?thesis by blast
    qed
  qed
  with al(1) r(1) show ?thesis by simp
qed

lemma align_blocks_ok:
  assumes "aligned_text lines B res"
    and "\<forall>b \<in> set bs. b \<noteq> [] \<and> set b \<subseteq> B \<and>
           (\<forall>i \<in> set b. i < length lines \<and> parse_set_command (lines ! i) \<noteq> None)"
  shows "\<exists>out. align_blocks res bs = Inr out \<and> aligned_text lines B out"
  using assms
proof (induction bs arbitrary: res)
  case Nil
  then show ?case by simp
next
  case (Cons b bs)
  from Cons.prems(2) have b: "b \<noteq> []" "set b \<subseteq> B"
    "\<forall>i \<in> set b. i < length lines \<and> parse_set_command (lines ! i) \<noteq> None"
    by simp_all
  from block_step [OF Cons.prems(1) b] obtain res' where
    s: "(case align_block res b of Inl e \<Rightarrow> Inl e
         | Inr al \<Rightarrow> replace_lines res b 0 al) = Inr res'" and inv: "aligned_text lines B res'"
    by blast
  from Cons.prems(2) have "\<forall>b \<in> set bs. b \<noteq> [] \<and> set b \<subseteq> B \<and>
           (\<forall>i \<in> set b. i < length lines \<and> parse_set_command (lines ! i) \<noteq> None)"
    by simp
  from Cons.IH [OF inv this] obtain out where
    o: "align_blocks res' bs = Inr out" "aligned_text lines B out"
    by blast
  have "align_blocks res (b # bs) = Inr out"
    using s o(1) by (auto split: sum.splits)
  with o(2) show ?case by blast
qed

lemma align_set_commands_aligned_text:
  assumes "\<forall>b \<in> set (find_set_blocks lines). \<forall>i \<in> set b. parse_set_command (lines ! i) \<noteq> None"
  shows "\<exists>out. align_set_commands lines = Inr out \<and>
           aligned_text lines (\<Union> (set ` set (find_set_blocks lines))) out"
proof (cases "lines = [] \<or> find_set_blocks lines = []")
  case True
  then have "align_set_commands lines = Inr lines"
    by (auto simp: align_set_commands_def)
  with aligned_text_refl show ?thesis by blast
next
  case False
  then have a: "align_set_commands lines = align_blocks lines (find_set_blocks lines)"
    by (simp add: align_set_commands_def)
  have "\<forall>b \<in> set (find_set_blocks lines). b \<noteq> [] \<and>
          set b \<subseteq> \<Union> (set ` set (find_set_blocks lines)) \<and>
          (\<forall>i \<in> set b. i < length lines \<and> parse_set_command (lines ! i) \<noteq> None)"
    using assms find_set_blocks_good [of lines] by (auto simp: set_lines_at_def)
  from align_blocks_ok [OF aligned_text_refl this] a show ?thesis by simp
qed

text \<open>
  C3, as the code has it.  When every line that \<open>_find_set_blocks\<close> puts into a block has a
  value, \<open>align_set_commands\<close> returns, with as many lines as it was given and in the same
  order.  Each line is returned as it was (every line outside the blocks is) or, read as
  indent, \<open>set\<close>, whitespace, name, whitespace, value and trailing whitespace, is rewritten
  to indent, \<open>set\<close>, one blank, name, one or more blanks and value: the leading whitespace
  and the three tokens are kept, the whitespace between the tokens is replaced and the
  trailing whitespace is dropped.
\<close>

theorem alignment_rewrites_spacing:
  assumes "\<forall>b \<in> set (find_set_blocks lines). \<forall>i \<in> set b. parse_set_command (lines ! i) \<noteq> None"
  shows "\<exists>out. align_set_commands lines = Inr out \<and> length out = length lines \<and>
           (\<forall>j < length lines.
              out ! j = lines ! j \<or>
              (j \<in> \<Union> (set ` set (find_set_blocks lines)) \<and>
               (\<exists>ind name value ws1 ws2 trail k.
                  lines ! j = ind @ ''set'' @ ws1 @ name @ ws2 @ value @ trail \<and>
                  out ! j = ind @ ''set '' @ name @ replicate (Suc k) (CHR '' '') @ value \<and>
                  (\<forall>c \<in> set ind. is_space c) \<and>
                  ws1 \<noteq> [] \<and> (\<forall>c \<in> set ws1. is_space c) \<and>
                  ws2 \<noteq> [] \<and> (\<forall>c \<in> set ws2. is_space c) \<and>
                  (\<forall>c \<in> set trail. is_space c) \<and>
                  name \<noteq> [] \<and> (\<forall>c \<in> set name. \<not> is_space c) \<and>
                  value \<noteq> [] \<and> \<not> is_space (hd value) \<and> \<not> is_space (last value))))"
proof -
  let ?B = "\<Union> (set ` set (find_set_blocks lines))"
  from align_set_commands_aligned_text [OF assms] obtain out where
    out: "align_set_commands lines = Inr out" and inv: "aligned_text lines ?B out"
    by blast
  have "out ! j = lines ! j \<or>
        (j \<in> ?B \<and>
         (\<exists>ind name value ws1 ws2 trail k.
            lines ! j = ind @ ''set'' @ ws1 @ name @ ws2 @ value @ trail \<and>
            out ! j = ind @ ''set '' @ name @ replicate (Suc k) (CHR '' '') @ value \<and>
            (\<forall>c \<in> set ind. is_space c) \<and>
            ws1 \<noteq> [] \<and> (\<forall>c \<in> set ws1. is_space c) \<and>
            ws2 \<noteq> [] \<and> (\<forall>c \<in> set ws2. is_space c) \<and>
            (\<forall>c \<in> set trail. is_space c) \<and>
            name \<noteq> [] \<and> (\<forall>c \<in> set name. \<not> is_space c) \<and>
            value \<noteq> [] \<and> \<not> is_space (hd value) \<and> \<not> is_space (last value)))"
    if j: "j < length lines" for j
  proof -
    from inv j have "out ! j = lines ! j \<or>
        (j \<in> ?B \<and> (\<exists>p k. parse_set_command (lines ! j) = Some p \<and> out ! j = aligned_line p k))"
      by (simp add: aligned_text_def)
    then show ?thesis
    proof
      assume "out ! j = lines ! j"
      then show ?thesis by (rule disjI1)
    next
      assume "j \<in> ?B \<and>
        (\<exists>p k. parse_set_command (lines ! j) = Some p \<and> out ! j = aligned_line p k)"
      then obtain p k where jb: "j \<in> ?B" and p: "parse_set_command (lines ! j) = Some p"
        and o: "out ! j = aligned_line p k"
        by blast
      note f = parse_set_command_Some [OF p]
      from parse_set_command_shape [OF p] obtain ws1 ws2 trail where
        sh: "lines ! j = indent p @ ''set'' @ ws1 @ variable p @ ws2 @ val p @ trail"
          "ws1 \<noteq> []" "\<forall>c \<in> set ws1. is_space c" "ws2 \<noteq> []" "\<forall>c \<in> set ws2. is_space c"
          "\<forall>c \<in> set trail. is_space c"
        by blast
      have ind: "\<forall>c \<in> set (indent p). is_space c"
        unfolding f(1) by (rule all_space_takeWhile)
      have o': "out ! j = indent p @ ''set '' @ variable p @ replicate (Suc k) (CHR '' '') @ val p"
        using o by (simp only: aligned_line_def)
      have "\<exists>ind name value ws1 ws2 trail k.
            lines ! j = ind @ ''set'' @ ws1 @ name @ ws2 @ value @ trail \<and>
            out ! j = ind @ ''set '' @ name @ replicate (Suc k) (CHR '' '') @ value \<and>
            (\<forall>c \<in> set ind. is_space c) \<and>
            ws1 \<noteq> [] \<and> (\<forall>c \<in> set ws1. is_space c) \<and>
            ws2 \<noteq> [] \<and> (\<forall>c \<in> set ws2. is_space c) \<and>
            (\<forall>c \<in> set trail. is_space c) \<and>
            name \<noteq> [] \<and> (\<forall>c \<in> set name. \<not> is_space c) \<and>
            value \<noteq> [] \<and> \<not> is_space (hd value) \<and> \<not> is_space (last value)"
        using sh o' ind f(2-6) by blast
      with jb show ?thesis by (intro disjI2 conjI)
    qed
  qed
  moreover have "length out = length lines"
    using inv by (simp add: aligned_text_def)
  ultimately show ?thesis using out by blast
qed

theorem alignment_rewrites_spacing_witness:
  "find_set_blocks [''  set x  10   '', ''  set variable_name 20'', ''puts x'', ''set lonely'']
     = [[0, 1]] \<and>
   parse_set_command ''  set x  10   '' \<noteq> None \<and>
   parse_set_command ''  set variable_name 20'' \<noteq> None \<and>
   parse_set_command ''set lonely'' = None \<and>
   (\<exists>out. align_set_commands
             [''  set x  10   '', ''  set variable_name 20'', ''puts x'', ''set lonely''] = Inr out \<and>
          length out = 4)"
proof -
  let ?L = "[''  set x  10   '', ''  set variable_name 20'', ''puts x'', ''set lonely'']"
  have h0: "find_set_blocks ?L = [[0, 1]]"
    by code_simp
  have h1: "parse_set_command ''  set x  10   '' \<noteq> None"
    by code_simp
  have h2: "parse_set_command ''  set variable_name 20'' \<noteq> None"
    by code_simp
  have h3: "parse_set_command ''set lonely'' = None"
    by code_simp
  have "\<forall>b \<in> set (find_set_blocks ?L). \<forall>i \<in> set b. parse_set_command (?L ! i) \<noteq> None"
    unfolding h0 using h1 h2 by simp
  from alignment_rewrites_spacing [OF this] obtain out where
    "align_set_commands ?L = Inr out" "length out = length ?L"
    by blast
  then have "\<exists>out. align_set_commands ?L = Inr out \<and> length out = 4"
    by simp
  with h0 h1 h2 h3 show ?thesis by blast
qed

text \<open>
  C3, as stated, fails: a rewritten line loses its trailing whitespace, which is neither
  leading nor internal, and \<open>align_set_commands\<close> does not return on every input.
\<close>

theorem alignment_drops_trailing_blanks:
  "align_set_commands [''set x 1 '', ''set y 2''] = Inr [''set x 1'', ''set y 2''] \<and>
   align_set_commands [''set x'', ''set y''] = Inl ValueError"
  by code_simp

section \<open>Balanced input\<close>

lemma process_chars_scan:
  "process_chars line n i q v = scan_chars n i q (drop i line) v"
proof (induction "length line - i" arbitrary: i q v rule: less_induct)
  case less
  show ?case
  proof (cases "i < length line")
    case False
    then show ?thesis by (subst process_chars.simps) simp
  next
    case True
    then have dr: "drop i line = line ! i # drop (i + 1) line"
      by (simp add: Cons_nth_drop_Suc)
    have ih1: "process_chars line n (i + 1) q' v' = scan_chars n (i + 1) q' (drop (i + 1) line) v'"
      for q' v'
      using True by (intro less) simp
    show ?thesis
    proof (cases "line ! i = BSL")
      case bsl: True
      show ?thesis
      proof (cases "i + 1 < length line")
        case True
        then have dr2: "drop (i + 1) line = line ! (i + 1) # drop (i + 2) line"
          using Cons_nth_drop_Suc [of "i + 1" line] by simp
        have "process_chars line n (i + 2) q v = scan_chars n (i + 2) q (drop (i + 2) line) v"
          using True by (intro less) simp
        moreover have "process_chars line n i q v = process_chars line n (i + 2) q v"
          using True bsl by (subst process_chars.simps) (simp add: Let_def)
        ultimately show ?thesis
          unfolding dr dr2 using bsl by simp
      next
        case False
        with True have e: "drop (i + 1) line = []" by simp
        have "process_chars line n i q v = process_chars line n (i + 1) q v"
          using True False bsl by (subst process_chars.simps) (simp add: Let_def)
        also have "\<dots> = v"
          using False by (subst process_chars.simps) simp
        finally show ?thesis
          unfolding dr e using bsl by simp
      qed
    next
      case nb: False
      have "process_chars line n i q v =
              (if line ! i = DQ then
                 (if q then process_chars line n (i + 1) False (record_error (pop DQ n i v))
                  else process_chars line n (i + 1) True (push DQ n i v))
               else if \<not> q then
                 (if line ! i = CHR ''{'' then
                    process_chars line n (i + 1) q (push (CHR ''{'') n i v)
                  else if line ! i = CHR ''}'' then
                    process_chars line n (i + 1) q (record_error (pop (CHR ''}'') n i v))
                  else process_chars line n (i + 1) q v)
               else process_chars line n (i + 1) q v)"
        using True nb by (subst process_chars.simps) (simp add: Let_def)
      then show ?thesis
        unfolding dr ih1 using nb by simp
    qed
  qed
qed

lemma pop_own_quote:
  "stack v = s @ [f] \<Longrightarrow> char f = DQ \<Longrightarrow> record_error (pop DQ n i v) = v\<lparr>stack := s\<rparr>"
  by (simp add: pop_def record_error_def Let_def)

lemma push_then_restore: "(push c n i v)\<lparr>stack := stack v\<rparr> = v"
  by (simp add: push_def)

lemma stack_push: "stack (push c n i v) = stack v @ [\<lparr>char = c, frame_line_number = n, position = i\<rparr>]"
  by (simp add: push_def)

lemma scan_chars_braces:
  "(\<not> q \<longrightarrow> even (quote_count cs) \<longrightarrow>
      scan_chars n i q cs v = run_braces (tag n (braces_of i False cs)) v) \<and>
   (q \<longrightarrow> odd (quote_count cs) \<longrightarrow>
      (\<forall>s f. stack v = s @ [f] \<longrightarrow> char f = DQ \<longrightarrow>
         scan_chars n i q cs v = run_braces (tag n (braces_of i True cs)) (v\<lparr>stack := s\<rparr>)))"
proof (induction n i q cs v rule: scan_chars.induct)
  case (1 n i q v)
  then show ?case by simp
next
  case (2 n i q c cs v)
  show ?case
  proof (cases "c = BSL")
    case True
    show ?thesis
    proof (cases cs)
      case Nil
      with True show ?thesis by simp
    next
      case (Cons d ds)
      with True 2(1) [OF True Cons] show ?thesis by simp
    qed
  next
    case nb: False
    show ?thesis
    proof (cases "c = DQ")
      case dq: True
      show ?thesis
      proof (cases q)
        case True
        have "scan_chars n i q (c # cs) v = run_braces (tag n (braces_of i True (c # cs))) (v\<lparr>stack := s\<rparr>)"
          if "odd (quote_count (c # cs))" "stack v = s @ [f]" "char f = DQ" for s f
        proof -
          from that(1) dq have ev: "even (quote_count cs)" by simp
          have "scan_chars n i q (c # cs) v = scan_chars n (i + 1) False cs (v\<lparr>stack := s\<rparr>)"
            using dq True pop_own_quote [OF that(2,3)] by simp
          also have "\<dots> = run_braces (tag n (braces_of (i + 1) False cs)) (v\<lparr>stack := s\<rparr>)"
            using 2(2) [OF nb dq True] ev pop_own_quote [OF that(2,3), of n i] by simp
          finally show ?thesis using dq by simp
        qed
        with True show ?thesis by blast
      next
        case False
        have "scan_chars n i q (c # cs) v = run_braces (tag n (braces_of i False (c # cs))) v"
          if "even (quote_count (c # cs))"
        proof -
          from that dq have od: "odd (quote_count cs)" by simp
          have "scan_chars n i q (c # cs) v = scan_chars n (i + 1) True cs (push DQ n i v)"
            using dq False by simp
          also have "\<dots> = run_braces (tag n (braces_of (i + 1) True cs))
                               ((push DQ n i v)\<lparr>stack := stack v\<rparr>)"
            using 2(3) [OF nb dq False] od by (simp add: stack_push)
          finally show ?thesis using dq by (simp add: push_then_restore)
        qed
        with False show ?thesis by blast
      qed
    next
      case nq: False
      show ?thesis
      proof (cases q)
        case True
        with nb nq 2(7) [OF nb nq] show ?thesis by simp
      next
        case False
        show ?thesis
        proof (cases "c = CHR ''{''")
          case True
          with nb nq False 2(4) [OF nb nq _ True] show ?thesis by simp
        next
          case no: False
          show ?thesis
          proof (cases "c = CHR ''}''")
            case True
            with nb nq False no 2(5) [OF nb nq _ no True] show ?thesis by simp
          next
            case nc: False
            with nb nq False no 2(6) [OF nb nq _ no nc] show ?thesis by simp
          qed
        qed
      qed
    qed
  qed
qed

lemma run_braces_append: "run_braces (a @ b) v = run_braces b (run_braces a v)"
  by (induction a v rule: run_braces.induct) simp_all

lemma pop_own_brace:
  "record_error (pop (CHR ''}'') n' p' (push (CHR ''{'') n p v)) = v"
  by (simp add: pop_def push_def record_error_def Let_def)

lemma balanced_run: "balanced w \<Longrightarrow> run_braces w v = v"
proof (induction w arbitrary: v rule: balanced.induct)
  case empty
  show ?case by simp
next
  case (nest w a b)
  obtain n p where a: "a = (n, p)" by (cases a)
  obtain n' p' where b: "b = (n', p')" by (cases b)
  show ?case
    unfolding a b by (simp add: run_braces_append nest.IH pop_own_brace)
next
  case (juxtapose u v')
  then show ?case by (simp add: run_braces_append)
qed

lemma process_line_braces:
  assumes "\<not> startswith (strip l) ''#'' \<Longrightarrow> even (quote_count l)"
  shows "process_line l n v =
           (if startswith (strip l) ''#'' then v else run_braces (line_braces (n, l)) v)"
proof (cases "startswith (strip l) ''#''")
  case True
  then show ?thesis by (simp add: process_line_def)
next
  case False
  with assms have "even (quote_count l)" by simp
  with scan_chars_braces [of False l n 0 v]
  have "scan_chars n 0 False l v = run_braces (tag n (braces_of 0 False l)) v"
    by simp
  with False show ?thesis
    by (simp add: process_line_def process_chars_scan line_braces_def)
qed

lemma process_lines_braces:
  assumes "list_all (\<lambda>(n, l). even (quote_count l))
             (filter (\<lambda>(n, l). \<not> startswith (strip l) ''#'') ls)"
  shows "process_lines ls v =
           run_braces (concat (map line_braces
             (filter (\<lambda>(n, l). \<not> startswith (strip l) ''#'') ls))) v"
  using assms
proof (induction ls arbitrary: v)
  case Nil
  show ?case by (simp add: process_lines_def)
next
  case (Cons nl ls)
  obtain n l where nl: "nl = (n, l)" by (cases nl)
  have ev: "\<not> startswith (strip l) ''#'' \<Longrightarrow> even (quote_count l)"
    using Cons.prems nl by simp
  have rest: "list_all (\<lambda>(n, l). even (quote_count l))
             (filter (\<lambda>(n, l). \<not> startswith (strip l) ''#'') ls)"
    using Cons.prems by (simp split: if_splits)
  have "process_lines (nl # ls) v = process_lines ls (process_line l n v)"
    by (simp add: process_lines_def nl)
  also have "\<dots> = run_braces (concat (map line_braces
             (filter (\<lambda>(n, l). \<not> startswith (strip l) ''#'') ls))) (process_line l n v)"
    by (rule Cons.IH [OF rest])
  finally show ?case
    using process_line_braces [OF ev, of n v]
    by (simp add: nl run_braces_append)
qed

lemma validate_braces:
  assumes "quotes_pair lines"
  shows "validate lines =
           errors (check_remaining_stack (run_braces (brace_word lines) \<lparr>stack = [], errors = []\<rparr>))"
  using assms process_lines_braces [of "folded_lines lines" "\<lparr>stack = [], errors = []\<rparr>"]
  by (simp add: validate_def handle_line_continuations_folded quotes_pair_def code_lines_def
        brace_word_def)

text \<open>
  C6, as the code has it.  Let the input be balanced on its logical lines, the folded lines
  that are not comments: every quote pairs with a quote of the same logical line (each of
  these lines holds an even number of unescaped quotes) and the braces outside the quoted
  regions form a balanced word.  Then \<open>validate\<close> returns no diagnostic.
\<close>

theorem balanced_input_has_no_errors:
  assumes "quotes_pair lines" and "balanced (brace_word lines)"
  shows "validate lines = []"
  using balanced_run [OF assms(2)]
  by (simp add: validate_braces [OF assms(1)] check_remaining_stack_def)

theorem balanced_input_has_no_errors_witness:
  "quotes_pair [''if {$x > 5} {'', ''puts '' @ [DQ] @ ''hi }'' @ [DQ], ''}''] \<and>
   balanced (brace_word [''if {$x > 5} {'', ''puts '' @ [DQ] @ ''hi }'' @ [DQ], ''}'']) \<and>
   validate [''if {$x > 5} {'', ''puts '' @ [DQ] @ ''hi }'' @ [DQ], ''}''] = []"
proof -
  let ?L = "[''if {$x > 5} {'', ''puts '' @ [DQ] @ ''hi }'' @ [DQ], ''}'']"
  have q: "quotes_pair ?L"
    by code_simp
  have w: "brace_word ?L = [(Open, 1, 3), (Close, 1, 10)] @ [(Open, 1, 12), (Close, 3, 0)]"
    by code_simp
  have pair: "balanced [(Open, a), (Close, b)]" for a b :: "nat \<times> nat"
    using nest [OF empty, of a b] by simp
  have b: "balanced (brace_word ?L)"
    unfolding w by (intro juxtapose pair)
  from q b balanced_input_has_no_errors [OF q b] show ?thesis
    by simp
qed



text \<open>
  C6, as stated, fails.  Read as one text, the two lines below hold two quotes, which pair,
  and no brace outside them; the validator's \<open>in_string\<close> is local to the scan of one
  logical line, so the second quote opens a region of its own and both are reported.
\<close>

theorem string_over_two_lines_is_rejected:
  "even (quote_count (source_text [''set x '' @ [DQ] @ ''a'', ''b'' @ [DQ]])) \<and>
   braces_of 0 False (source_text [''set x '' @ [DQ] @ ''a'', ''b'' @ [DQ]]) = [] \<and>
   validate [''set x '' @ [DQ] @ ''a'', ''b'' @ [DQ]] =
     [\<lparr>line_number = 1, message = ''Unmatched opening quote'', error_type = ''quote''\<rparr>,
      \<lparr>line_number = 2, message = ''Unmatched opening quote'', error_type = ''quote''\<rparr>]"
  by code_simp


text \<open>
  A string that runs over two physical lines is accepted when a continuation backslash joins
  them into one logical line.
\<close>

lemma string_joined_by_continuation:
  "validate [''set x '' @ [DQ] @ ''a'' @ [BSL], ''b'' @ [DQ]] = []"
  by code_simp

section \<open>The list tokenizer\<close>

lemma skip_blanks_drop:
  "drop (skip_blanks s i) s = dropWhile is_blank (drop i s)"
proof (induction s i rule: skip_blanks.induct)
  case (1 s i)
  show ?case
  proof (cases "i < length s")
    case False
    then have "skip_blanks s i = i" by (subst skip_blanks.simps) simp
    with False show ?thesis by simp
  next
    case True
    then have dr: "drop i s = s ! i # drop (i + 1) s"
      by (simp add: Cons_nth_drop_Suc)
    show ?thesis
    proof (cases "s ! i = CHR '' '' \<or> s ! i = TAB")
      case blank: True
      then have "skip_blanks s i = skip_blanks s (i + 1)"
        using True by (subst skip_blanks.simps) simp
      moreover have "drop (skip_blanks s (i + 1)) s = dropWhile is_blank (drop (i + 1) s)"
        using 1 True blank by simp
      moreover have "is_blank (s ! i)" using blank by (simp add: is_blank_def)
      ultimately show ?thesis unfolding dr by simp
    next
      case False
      then have "skip_blanks s i = i" by (subst skip_blanks.simps) simp
      moreover have "\<not> is_blank (s ! i)" using False by (simp add: is_blank_def)
      ultimately show ?thesis using dr by simp
    qed
  qed
qed

lemma parse_chars_plain:
  assumes "\<not> (c = BSL \<and> cs \<noteq> [])" and "\<not> (\<not> q \<and> d = 0 \<and> is_blank c)"
  shows "parse_chars (c # cs) cur d q items =
           (if c = DQ then parse_chars cs (cur @ [c]) d (\<not> q) items
            else if \<not> q \<and> c = CHR ''{'' then parse_chars cs (cur @ [c]) (d + 1) q items
            else if \<not> q \<and> c = CHR ''}'' then parse_chars cs (cur @ [c]) (d - 1) q items
            else parse_chars cs (cur @ [c]) d q items)"
  using assms by (subst parse_chars.simps(2)) (simp only: if_False)

lemma parse_loop_chars:
  "parse_loop s i cur d q items = parse_chars (drop i s) cur d q items"
proof (induction "length s - i" arbitrary: i cur d q items rule: less_induct)
  case less
  show ?case
  proof (cases "i < length s")
    case False
    then show ?thesis by (subst parse_loop.simps) simp
  next
    case True
    then have dr: "drop i s = s ! i # drop (i + 1) s"
      by (simp add: Cons_nth_drop_Suc)
    have ih1: "parse_loop s (i + 1) cur' d' q' items' =
                 parse_chars (drop (i + 1) s) cur' d' q' items'" for cur' d' q' items'
      using True by (intro less) simp
    show ?thesis
    proof (cases "s ! i = BSL \<and> i + 1 < length s")
      case esc: True
      then have dr2: "drop (i + 1) s = s ! (i + 1) # drop (i + 2) s"
        using Cons_nth_drop_Suc [of "i + 1" s] by simp
      have "parse_loop s (i + 2) (cur @ [s ! i, s ! (i + 1)]) d q items =
              parse_chars (drop (i + 2) s) (cur @ [s ! i, s ! (i + 1)]) d q items"
        using True by (intro less) simp
      moreover have "parse_loop s i cur d q items =
                       parse_loop s (i + 2) (cur @ [s ! i, s ! (i + 1)]) d q items"
        using True esc by (subst parse_loop.simps) (simp add: Let_def)
      ultimately show ?thesis
        unfolding dr dr2 using esc by (simp add: parse_chars.simps(2))
    next
      case ne: False
      then have ne': "\<not> (s ! i = BSL \<and> drop (i + 1) s \<noteq> [])"
        by auto
      show ?thesis
      proof (cases "\<not> q \<and> d = 0 \<and> (s ! i = CHR '' '' \<or> s ! i = TAB)")
        case sep: True
        then have c: "s ! i \<noteq> DQ" "s ! i \<noteq> CHR ''{''" "s ! i \<noteq> CHR ''}''" "s ! i \<noteq> BSL"
          by auto
        have b: "is_blank (s ! i)" using sep by (simp add: is_blank_def)
        let ?items = "if cur \<noteq> [] then items @ [cur] else items"
        have lt: "i < skip_blanks s i" using True sep by (intro skip_blanks_gt) auto
        have "parse_loop s i cur d q items = parse_loop s (skip_blanks s i) [] d q ?items"
          using True sep c by (subst parse_loop.simps) (simp add: Let_def)
        also have "\<dots> = parse_chars (drop (skip_blanks s i) s) [] d q ?items"
          using lt True by (intro less) simp
        also have "drop (skip_blanks s i) s = dropWhile is_blank (drop (i + 1) s)"
          unfolding skip_blanks_drop dr using b by simp
        finally show ?thesis
          unfolding dr using sep c b by (simp add: parse_chars.simps(2))
      next
        case ns: False
        then have nb: "\<not> (\<not> q \<and> d = 0 \<and> is_blank (s ! i))"
          by (simp add: is_blank_def)
        have "parse_loop s i cur d q items =
           (if s ! i = DQ then parse_loop s (i + 1) (cur @ [s ! i]) d (\<not> q) items
            else if \<not> q \<and> s ! i = CHR ''{'' then
              parse_loop s (i + 1) (cur @ [s ! i]) (d + 1) q items
            else if \<not> q \<and> s ! i = CHR ''}'' then
              parse_loop s (i + 1) (cur @ [s ! i]) (d - 1) q items
            else parse_loop s (i + 1) (cur @ [s ! i]) d q items)"
          using True ne ns by (subst parse_loop.simps) (auto simp: Let_def)
        then show ?thesis
          unfolding dr ih1 by (simp only: parse_chars_plain [OF ne' nb])
      qed
    qed
  qed
qed

lemma parse_list_items_chars: "parse_list_items s = parse_chars s [] 0 False []"
  by (simp add: parse_list_items_def parse_loop_chars)

lemma not_blank_special:
  "\<not> is_blank BSL" "\<not> is_blank DQ" "\<not> is_blank (CHR ''{'')" "\<not> is_blank (CHR ''}'')"
  by (simp_all add: is_blank_def)

lemma parse_chars_esc:
  "parse_chars (BSL # e # es) cur d q items = parse_chars es (cur @ [BSL, e]) d q items"
  by (subst parse_chars.simps(2)) simp

lemma parse_chars_sep:
  assumes "is_blank c"
  shows "parse_chars (c # cs) cur 0 False items =
           parse_chars (dropWhile is_blank cs) [] 0 False
             (if cur \<noteq> [] then items @ [cur] else items)"
proof -
  from assms have "c \<noteq> BSL" "c \<noteq> DQ" "c \<noteq> CHR ''{''" "c \<noteq> CHR ''}''"
    using not_blank_special by auto
  with assms show ?thesis
    by (subst parse_chars.simps(2)) simp
qed

lemma parse_chars_items:
  "parse_chars cs cur d q (pre @ items) = pre @ parse_chars cs cur d q items"
proof (induction cs cur d q items rule: parse_chars.induct)
  case (1 cur d q items)
  show ?case by simp
next
  case (2 c cs cur d q items)
  show ?case
  proof (cases "c = BSL \<and> cs \<noteq> []")
    case True
    then obtain e es where cs: "cs = e # es" by (cases cs) auto
    from 2(1) [OF True] True cs show ?thesis
      by (simp add: parse_chars_esc)
  next
    case ne: False
    show ?thesis
    proof (cases "\<not> q \<and> d = 0 \<and> is_blank c")
      case True
      then have c: "c \<noteq> DQ" "\<not> (\<not> q \<and> c = CHR ''{'')" "\<not> (\<not> q \<and> c = CHR ''}'')"
        using not_blank_special by auto
      from 2(5) [OF ne c True] True show ?thesis
        by (cases "cur = []") (simp_all add: parse_chars_sep)
    next
      case nb: False
      show ?thesis
      proof (cases "c = DQ")
        case True
        show ?thesis
          unfolding parse_chars_plain [OF ne nb] using True 2(2) [OF ne True] by simp
      next
        case nq: False
        show ?thesis
        proof (cases "\<not> q \<and> c = CHR ''{''")
          case True
          show ?thesis
            unfolding parse_chars_plain [OF ne nb] using nq True 2(3) [OF ne nq True] by simp
        next
          case no: False
          show ?thesis
          proof (cases "\<not> q \<and> c = CHR ''}''")
            case True
            show ?thesis
              unfolding parse_chars_plain [OF ne nb] using nq no True 2(4) [OF ne nq no True] by simp
          next
            case nc: False
            show ?thesis
              unfolding parse_chars_plain [OF ne nb] using nq no nc 2(6) [OF ne nq no nc nb] by auto
          qed
        qed
      qed
    qed
  qed
qed

lemma parse_chars_items1:
  "parse_chars cs cur d q [x] = x # parse_chars cs cur d q []"
  using parse_chars_items [of cs cur d q "[x]" "[]"] by simp

lemma item_cases [case_names Nil Esc Dangling Sep Plain]:
  obtains "cs = []"
  | e es where "cs = BSL # e # es"
  | "cs = [BSL]"
  | c cs' where "cs = c # cs'" "c \<noteq> BSL" "\<not> q \<and> d = 0 \<and> is_blank c"
  | c cs' where "cs = c # cs'" "c \<noteq> BSL" "\<not> (\<not> q \<and> d = (0::int) \<and> is_blank c)"
proof (cases cs)
  case Nil
  then show ?thesis using that(1) by simp
next
  case (Cons c cs')
  show ?thesis
  proof (cases "c = BSL")
    case True
    with Cons that(2,3) show ?thesis by (cases cs') auto
  next
    case False
    with Cons that(4,5) show ?thesis by blast
  qed
qed

lemma parse_chars_step:
  assumes "c \<noteq> BSL" and "\<not> (\<not> q \<and> d = 0 \<and> is_blank c)"
  shows "parse_chars (c # cs) cur d q items =
           parse_chars cs (cur @ [c]) (fst (char_step c d q)) (snd (char_step c d q)) items"
proof -
  from assms(1) have "\<not> (c = BSL \<and> cs \<noteq> [])" by simp
  from parse_chars_plain [OF this assms(2)] show ?thesis
    by (simp add: char_step_def)
qed

lemma scan_item_step:
  assumes "c \<noteq> BSL" and "\<not> (\<not> q \<and> d = 0 \<and> is_blank c)"
  shows "scan_item (c # cs) d q = scan_item cs (fst (char_step c d q)) (snd (char_step c d q))"
  using assms by (auto simp: char_step_def)

lemma scan_item_sep:
  assumes "\<not> q \<and> d = 0 \<and> is_blank c"
  shows "scan_item (c # cs) d q = None"
  using assms not_blank_special by auto

lemma replay_item:
  assumes "scan_item cs d q = Some (d', q', False)"
  shows "parse_chars (cs @ rest) cur d q items = parse_chars rest (cur @ cs) d' q' items"
  using assms
proof (induction "length cs" arbitrary: cs d q cur rule: less_induct)
  case less
  show ?case
  proof (cases rule: item_cases [where cs = cs and d = d and q = q])
    case Nil
    with less.prems show ?thesis by simp
  next
    case (Esc e es)
    with less.prems have "scan_item es d q = Some (d', q', False)" by simp
    with Esc have "parse_chars (es @ rest) (cur @ [BSL, e]) d q items =
                     parse_chars rest ((cur @ [BSL, e]) @ es) d' q' items"
      by (intro less.hyps) simp_all
    with Esc show ?thesis by (simp add: parse_chars_esc)
  next
    case Dangling
    with less.prems show ?thesis by simp
  next
    case (Sep c cs')
    have "scan_item (c # cs') d q = None"
      by (rule scan_item_sep [OF Sep(3)])
    with less.prems Sep(1) show ?thesis by (simp del: scan_item.simps)
  next
    case (Plain c cs')
    let ?d = "fst (char_step c d q)" and ?q = "snd (char_step c d q)"
    from less.prems Plain(1) scan_item_step [OF Plain(2,3), of cs']
    have "scan_item cs' ?d ?q = Some (d', q', False)"
      by (simp del: scan_item.simps)
    with Plain have "parse_chars (cs' @ rest) (cur @ [c]) ?d ?q items =
                       parse_chars rest ((cur @ [c]) @ cs') d' q' items"
      by (intro less.hyps) simp_all
    with Plain show ?thesis by (simp add: parse_chars_step)
  qed
qed

lemma replay_last_item:
  assumes "scan_item cs d q \<noteq> None" and "cur @ cs \<noteq> []"
  shows "parse_chars cs cur d q items = items @ [cur @ cs]"
  using assms
proof (induction "length cs" arbitrary: cs d q cur rule: less_induct)
  case less
  show ?case
  proof (cases rule: item_cases [where cs = cs and d = d and q = q])
    case Nil
    with less.prems show ?thesis by simp
  next
    case (Esc e es)
    with less.prems have "scan_item es d q \<noteq> None" by simp
    with Esc have "parse_chars es (cur @ [BSL, e]) d q items = items @ [(cur @ [BSL, e]) @ es]"
      by (intro less.hyps) simp_all
    with Esc show ?thesis by (simp add: parse_chars_esc)
  next
    case Dangling
    have "parse_chars [BSL] cur d q items = parse_chars [] (cur @ [BSL]) d q items"
      by (subst parse_chars.simps(2)) (simp add: not_blank_special)
    with Dangling show ?thesis by simp
  next
    case (Sep c cs')
    have "scan_item (c # cs') d q = None"
      by (rule scan_item_sep [OF Sep(3)])
    with less.prems Sep(1) show ?thesis by (simp del: scan_item.simps)
  next
    case (Plain c cs')
    let ?d = "fst (char_step c d q)" and ?q = "snd (char_step c d q)"
    from less.prems Plain(1) scan_item_step [OF Plain(2,3), of cs']
    have "scan_item cs' ?d ?q \<noteq> None"
      by (simp del: scan_item.simps)
    with Plain have "parse_chars cs' (cur @ [c]) ?d ?q items = items @ [(cur @ [c]) @ cs']"
      by (intro less.hyps) simp_all
    with Plain show ?thesis by (simp add: parse_chars_step)
  qed
qed

lemma scan_item_append:
  assumes "scan_item a d q = Some (d', q', False)"
  shows "scan_item (a @ b) d q = scan_item b d' q'"
  using assms
proof (induction "length a" arbitrary: a d q rule: less_induct)
  case less
  show ?case
  proof (cases rule: item_cases [where cs = a and d = d and q = q])
    case Nil
    with less.prems show ?thesis by simp
  next
    case (Esc e es)
    with less.prems have "scan_item es d q = Some (d', q', False)" by simp
    with Esc have "scan_item (es @ b) d q = scan_item b d' q'"
      by (intro less.hyps) simp_all
    with Esc show ?thesis by simp
  next
    case Dangling
    with less.prems show ?thesis by simp
  next
    case (Sep c cs')
    have "scan_item (c # cs') d q = None"
      by (rule scan_item_sep [OF Sep(3)])
    with less.prems Sep(1) show ?thesis by (simp del: scan_item.simps)
  next
    case (Plain c cs')
    let ?d = "fst (char_step c d q)" and ?q = "snd (char_step c d q)"
    from less.prems Plain(1) scan_item_step [OF Plain(2,3), of cs']
    have "scan_item cs' ?d ?q = Some (d', q', False)"
      by (simp del: scan_item.simps)
    with Plain have "scan_item (cs' @ b) ?d ?q = scan_item b d' q'"
      by (intro less.hyps) simp_all
    with Plain(1) scan_item_step [OF Plain(2,3), of "cs' @ b"] show ?thesis
      by (simp del: scan_item.simps)
  qed
qed

lemma item_starts_unblank:
  assumes "y \<noteq> []" and "scan_item y 0 False \<noteq> None"
  shows "\<not> is_blank (hd y)"
proof
  assume b: "is_blank (hd y)"
  from assms(1) obtain c cs where y: "y = c # cs" by (cases y) auto
  with b have "\<not> False \<and> (0::int) = 0 \<and> is_blank c" by simp
  then have "scan_item (c # cs) 0 False = None" by (rule scan_item_sep)
  with assms(2) y show False by (simp del: scan_item.simps)
qed

lemma proper_items_Cons:
  assumes "x \<noteq> []" and "scan_item x 0 False = Some (0, False, False)" and "proper_items ys"
  shows "proper_items (x # ys)"
  using assms by (cases ys) simp_all

lemma proper_items_head:
  assumes "proper_items (y # ys)"
  shows "y \<noteq> []" and "scan_item y 0 False \<noteq> None"
  using assms by (cases ys; simp)+

lemma parse_chars_proper:
  assumes "scan_item cur 0 False = Some (d, q, False)"
  shows "proper_items (parse_chars cs cur d q [])"
  using assms
proof (induction "length cs" arbitrary: cs cur d q rule: less_induct)
  case less
  note inv = less.prems
  show ?case
  proof (cases rule: item_cases [where cs = cs and d = d and q = q])
    case Nil
    with inv show ?thesis by simp
  next
    case (Esc e es)
    have "scan_item (cur @ [BSL, e]) 0 False = scan_item [BSL, e] d q"
      by (rule scan_item_append [OF inv])
    then have "scan_item (cur @ [BSL, e]) 0 False = Some (d, q, False)" by simp
    with Esc have "proper_items (parse_chars es (cur @ [BSL, e]) d q [])"
      by (intro less.hyps) simp_all
    with Esc show ?thesis by (simp add: parse_chars_esc)
  next
    case Dangling
    have "scan_item (cur @ [BSL]) 0 False = scan_item [BSL] d q"
      by (rule scan_item_append [OF inv])
    then have s: "scan_item (cur @ [BSL]) 0 False \<noteq> None" by simp
    have "parse_chars [BSL] cur d q [] = parse_chars [] (cur @ [BSL]) d q []"
      by (subst parse_chars.simps(2)) (simp add: not_blank_special)
    with Dangling s show ?thesis by simp
  next
    case (Sep c cs')
    then have dq: "d = 0" "q = False" and b: "is_blank c" by simp_all
    let ?rest = "dropWhile is_blank cs'"
    have "length ?rest < length cs"
      using length_dropWhile_le [of is_blank cs'] Sep(1) by simp
    moreover have "scan_item [] 0 False = Some (0, False, False)" by simp
    ultimately have r: "proper_items (parse_chars ?rest [] 0 False [])"
      by (rule less.hyps)
    have "parse_chars cs cur d q [] =
            parse_chars ?rest [] 0 False (if cur \<noteq> [] then [] @ [cur] else [])"
      unfolding Sep(1) dq by (rule parse_chars_sep [OF b])
    also have "\<dots> = (if cur \<noteq> [] then cur # parse_chars ?rest [] 0 False []
                      else parse_chars ?rest [] 0 False [])"
      by (simp add: parse_chars_items1)
    finally show ?thesis
      using r inv dq by (simp add: proper_items_Cons)
  next
    case (Plain c cs')
    let ?d = "fst (char_step c d q)" and ?q = "snd (char_step c d q)"
    have "scan_item (cur @ [c]) 0 False = scan_item [c] d q"
      by (rule scan_item_append [OF inv])
    also have "\<dots> = scan_item [] ?d ?q"
      by (rule scan_item_step [OF Plain(2,3)])
    finally have "scan_item (cur @ [c]) 0 False = Some (?d, ?q, False)" by simp
    with Plain(1) have "proper_items (parse_chars cs' (cur @ [c]) ?d ?q [])"
      by (intro less.hyps) simp_all
    with Plain show ?thesis by (simp add: parse_chars_step)
  qed
qed

lemma hd_join_spaces: "y \<noteq> [] \<Longrightarrow> hd (join_spaces (y # ys)) = hd y"
  by (cases ys) simp_all

lemma join_spaces_nonempty: "y \<noteq> [] \<Longrightarrow> join_spaces (y # ys) \<noteq> []"
  by (cases ys) simp_all

lemma parse_chars_join:
  assumes "proper_items items"
  shows "parse_chars (join_spaces items) [] 0 False [] = items"
  using assms
proof (induction items rule: join_spaces.induct)
  case 1
  show ?case by simp
next
  case (2 x)
  then have "parse_chars x [] 0 False [] = [] @ [[] @ x]"
    by (intro replay_last_item) simp_all
  then show ?case by simp
next
  case (3 x y ys)
  let ?J = "join_spaces (y # ys)"
  from 3(2) have x: "scan_item x 0 False = Some (0, False, False)"
    and rest: "proper_items (y # ys)"
    by simp_all
  note y = proper_items_head [OF rest]
  have "\<not> is_blank (hd ?J)"
    using item_starts_unblank [OF y] by (simp add: hd_join_spaces [OF y(1)])
  with join_spaces_nonempty [OF y(1)] have dw: "dropWhile is_blank ?J = ?J"
    by (cases ?J) simp_all
  have blank: "is_blank (CHR '' '')" by (simp add: is_blank_def)
  have "parse_chars (join_spaces (x # y # ys)) [] 0 False [] =
          parse_chars (x @ CHR '' '' # ?J) [] 0 False []"
    by simp
  also have "\<dots> = parse_chars (CHR '' '' # ?J) ([] @ x) 0 False []"
    by (rule replay_item [OF x])
  also have "\<dots> = parse_chars (dropWhile is_blank ?J) [] 0 False
                      (if [] @ x \<noteq> [] then [] @ [[] @ x] else [])"
    by (rule parse_chars_sep [OF blank])
  also have "\<dots> = parse_chars ?J [] 0 False [x]"
    using 3(2) dw by simp
  also have "\<dots> = x # parse_chars ?J [] 0 False []"
    by (rule parse_chars_items1)
  also have "parse_chars ?J [] 0 False [] = y # ys"
    by (rule 3(1) [OF rest])
  finally show ?case .
qed

text \<open>
  C8.  For every list content, tokenizing it, joining the items with single spaces and
  tokenizing the result gives the same items in the same order.
\<close>

theorem tokenizer_round_trip:
  "parse_list_items (join_spaces (parse_list_items s)) = parse_list_items s"
proof -
  have "proper_items (parse_chars s [] 0 False [])"
    by (rule parse_chars_proper) simp
  then show ?thesis
    by (simp add: parse_list_items_chars parse_chars_join)
qed

theorem tokenizer_round_trip_witness:
  "parse_list_items (''a   {b  c}'' @ [TAB] @ ''d '' @ [BSL]) = [''a'', ''{b  c}'', ''d'', [BSL]] \<and>
   parse_list_items (join_spaces [''a'', ''{b  c}'', ''d'', [BSL]]) = [''a'', ''{b  c}'', ''d'', [BSL]]"
proof -
  have e: "parse_list_items (''a   {b  c}'' @ [TAB] @ ''d '' @ [BSL]) =
             [''a'', ''{b  c}'', ''d'', [BSL]]"
    by code_simp
  with tokenizer_round_trip [of "''a   {b  c}'' @ [TAB] @ ''d '' @ [BSL]"] show ?thesis
    by simp
qed

end
